theory Spec2Isabelle
  imports Main "HOL-Library.AList" "HOL-Library.Multiset"
begin

section \<open>The execution DAG of horde-test (\<^verbatim>\<open>lib/dag.py\<close>)\<close>

text \<open>
  A shallow embedding of \<^verbatim>\<open>DAGBuilder\<close>: graph construction (\<^verbatim>\<open>_build\<close>),
  cycle detection (\<^verbatim>\<open>_detect_cycles\<close>), the level schedule
  (\<^verbatim>\<open>get_execution_order\<close>), its splitting (\<^verbatim>\<open>get_parallel_groups\<close>) and the
  runtime queries (\<^verbatim>\<open>mark_executed\<close>, \<^verbatim>\<open>is_ready\<close>, \<^verbatim>\<open>get_ready_suites\<close>,
  \<^verbatim>\<open>get_stats\<close>).

  \<^item> A Python \<^verbatim>\<open>dict\<close> keeps its keys in insertion order and the code iterates over
    it, so a dict is an association list: \<open>map_of\<close> looks a key up,
    \<open>AList.update\<close> is \<^verbatim>\<open>d[k] = v\<close> (an existing key keeps its position, a new one
    goes to the end), and \<open>AList.map_entry\<close> is the in-place mutation of the object
    stored under a key.
  \<^item> A Python \<^verbatim>\<open>set[str]\<close> is a duplicate-free list of its elements. CPython iterates
    a set of strings in hash order, which differs from process to process; every
    function that iterates a set therefore takes the iteration order as a parameter
    \<open>it\<close>, a function that rearranges the elements. All general theorems hold for every
    such order.
  \<^item> Every \<^verbatim>\<open>raise\<close> and every implicit exception (\<^verbatim>\<open>KeyError\<close>, the \<^verbatim>\<open>ValueError\<close>
    of \<^verbatim>\<open>list.index\<close> and of \<^verbatim>\<open>range\<close>, \<^verbatim>\<open>IndexError\<close>, and the \<^verbatim>\<open>RecursionError\<close>
    of the recursive traversal in \<^verbatim>\<open>_detect_cycles\<close>) is a value of type \<open>error\<close>.
  \<^item> The recursion depth the interpreter has left when the constructor runs is a
    parameter \<open>lim\<close> of the construction; the concrete evaluations take 1000, the
    default of \<^verbatim>\<open>sys.getrecursionlimit()\<close>.
  \<^item> The node objects are mutable and shared; the operations that mutate them return
    the new node table, also when they end in an exception.
\<close>

subsection \<open>Data model (\<^verbatim>\<open>lib/parser.py\<close>, \<^verbatim>\<open>lib/dag.py\<close>)\<close>

record SuiteConfig =
  timeout :: int
  retries :: int
  parallel :: bool
  coverage :: bool

record TestSuite =
  name :: string
  category :: string
  files :: "string list"
  dependencies :: "string list"
  config :: SuiteConfig

text \<open>Of \<^verbatim>\<open>TestPlan\<close> the DAG builder reads only \<^verbatim>\<open>suites\<close>; the untyped
  dictionaries \<^verbatim>\<open>context\<close> and \<^verbatim>\<open>scope\<close> and the nested configuration objects are
  left out.\<close>

record TestPlan =
  plan_id :: string
  version :: string
  suites :: "TestSuite list"

record DAGNode =
  suite :: TestSuite
  dependencies :: "string list"
  dependents :: "string list"
  executed :: bool
  status :: "string option"

type_synonym nodes = "(string \<times> DAGNode) list"

type_synonym set_order = "string list \<Rightarrow> string list"

datatype error =
    UnknownDependency string string
  | CircularDependency "string list"
  | SchedulingIncomplete "string list"
  | RangeStepZero
  | KeyError string
  | NotInList string
  | IndexError
  | RecursionError

text \<open>
  The first three are the \<^verbatim>\<open>ValueError\<close>s the module raises itself, told apart by
  their messages: ``Suite 'X' depends on unknown suite 'Y'``, ``Circular dependency
  detected: ...`` (with the path) and ``Could not schedule all suites. Unexecuted:
  ...``. \<open>RangeStepZero\<close> is the \<^verbatim>\<open>ValueError\<close> of \<^verbatim>\<open>range\<close> called with step 0,
  \<open>NotInList\<close> the one of \<^verbatim>\<open>list.index\<close>, \<open>IndexError\<close> the one of \<^verbatim>\<open>pop\<close> on an
  empty list, \<open>RecursionError\<close> the one the interpreter raises when a call would
  exceed its recursion limit. Of the circular-dependency error the constructor keeps
  the list \<^verbatim>\<open>cycle\<close>; the message holds its entries joined by \<^verbatim>\<open>' -> '\<close>.
\<close>

definition iteration_order :: "set_order \<Rightarrow> bool" where
  "iteration_order it \<longleftrightarrow> (\<forall>xs. mset (it xs) = mset xs)"

definition set_add :: "string \<Rightarrow> string list \<Rightarrow> string list" where
  "set_add x xs = (if x \<in> set xs then xs else xs @ [x])"

definition new_node :: "TestSuite \<Rightarrow> DAGNode" where
  "new_node s = \<lparr>suite = s, dependencies = [], dependents = [], executed = False, status = None\<rparr>"

subsection \<open>\<^verbatim>\<open>_build\<close>\<close>

text \<open>First loop: \<^verbatim>\<open>self.nodes[suite.name] = DAGNode(suite=suite)\<close>.\<close>

fun create_nodes :: "nodes \<Rightarrow> TestSuite list \<Rightarrow> nodes" where
  "create_nodes nds [] = nds"
| "create_nodes nds (s # ss) = create_nodes (AList.update (name s) (new_node s) nds) ss"

text \<open>Inner loop of the second pass, for the suite called \<open>sname\<close>: the unknown-name
  check, then \<^verbatim>\<open>node.dependencies.add(dep_name)\<close> and
  \<^verbatim>\<open>self.nodes[dep_name].dependents.add(suite.name)\<close>, both mutations of node objects
  in place.\<close>

fun add_dependencies :: "nodes \<Rightarrow> string \<Rightarrow> string list \<Rightarrow> error + nodes" where
  "add_dependencies nds sname [] = Inr nds"
| "add_dependencies nds sname (dep_name # rest) =
     (if map_of nds dep_name = None then Inl (UnknownDependency sname dep_name)
      else
        let nds1 = AList.map_entry sname
                     (\<lambda>node. node\<lparr>dependencies := set_add dep_name (dependencies node)\<rparr>) nds;
            nds2 = AList.map_entry dep_name
                     (\<lambda>node. node\<lparr>dependents := set_add sname (dependents node)\<rparr>) nds1
        in add_dependencies nds2 sname rest)"

text \<open>Outer loop of the second pass; \<^verbatim>\<open>node = self.nodes[suite.name]\<close> is the lookup
  that could raise \<^verbatim>\<open>KeyError\<close>.\<close>

fun build_relationships :: "nodes \<Rightarrow> TestSuite list \<Rightarrow> error + nodes" where
  "build_relationships nds [] = Inr nds"
| "build_relationships nds (s # ss) =
     (case map_of nds (name s) of
        None \<Rightarrow> Inl (KeyError (name s))
      | Some node \<Rightarrow>
          (case add_dependencies nds (name s) (TestSuite.dependencies s) of
             Inl e \<Rightarrow> Inl e
           | Inr nds' \<Rightarrow> build_relationships nds' ss))"

subsection \<open>\<^verbatim>\<open>_detect_cycles\<close>\<close>

datatype color = WHITE | GRAY | BLACK

type_synonym colors = "(string \<times> color) list"

text \<open>\<^verbatim>\<open>path.index(dep)\<close>: the first position of \<open>x\<close>, or \<^verbatim>\<open>ValueError\<close>.\<close>

fun index_of :: "string list \<Rightarrow> string \<Rightarrow> nat option" where
  "index_of [] x = None"
| "index_of (y # ys) x = (if y = x then Some 0 else map_option Suc (index_of ys x))"

definition whites :: "colors \<Rightarrow> nat" where
  "whites col = length (filter (\<lambda>kv. snd kv = WHITE) col)"

text \<open>
  The nested function \<^verbatim>\<open>dfs\<close> and its \<^verbatim>\<open>for dep in ...dependencies\<close> loop
  (\<open>dfs_deps\<close>, over the dependencies still to visit). The closure variables
  \<^verbatim>\<open>color\<close> and \<^verbatim>\<open>path\<close> are threaded through as a pair.

  \<^verbatim>\<open>dfs\<close> calls itself, one interpreter frame for each link of a dependency chain,
  and Python raises \<^verbatim>\<open>RecursionError\<close> when the frames exceed the recursion limit.
  \<open>depth\<close> is the number of activations of \<^verbatim>\<open>dfs\<close> that are open when the call is
  made. \<open>lim\<close> is the number of nested activations the interpreter has room for when
  \<^verbatim>\<open>_detect_cycles\<close> runs (\<^verbatim>\<open>sys.getrecursionlimit()\<close>, 1000 unless changed, less
  the frames of the callers); nothing in the module sets it, so it is a parameter.
\<close>

function dfs :: "nat \<Rightarrow> set_order \<Rightarrow> nodes \<Rightarrow> nat \<Rightarrow> colors \<times> string list \<Rightarrow> string
                   \<Rightarrow> error + (colors \<times> string list)"
  and dfs_deps :: "nat \<Rightarrow> set_order \<Rightarrow> nodes \<Rightarrow> nat \<Rightarrow> colors \<times> string list \<Rightarrow> string list
                   \<Rightarrow> error + (colors \<times> string list)"
where
  "dfs lim it nds depth (col, path) node_name =
     (if lim \<le> depth then Inl RecursionError
      else
        (case map_of nds node_name of
           None \<Rightarrow> Inl (KeyError node_name)
         | Some node \<Rightarrow>
             (case dfs_deps lim it nds (Suc depth)
                     (AList.update node_name GRAY col, path @ [node_name])
                     (it (dependencies node)) of
                Inl e \<Rightarrow> Inl e
              | Inr (col', path') \<Rightarrow>
                  if path' = [] then Inl IndexError
                  else Inr (AList.update node_name BLACK col', butlast path'))))"
| "dfs_deps lim it nds depth (col, path) [] = Inr (col, path)"
| "dfs_deps lim it nds depth (col, path) (dep # rest) =
     (case map_of col dep of
        None \<Rightarrow> Inl (KeyError dep)
      | Some c \<Rightarrow>
          if c = GRAY then
            (case index_of path dep of
               None \<Rightarrow> Inl (NotInList dep)
             | Some cycle_start \<Rightarrow> Inl (CircularDependency (drop cycle_start path @ [dep])))
          else if c = WHITE then
            (case dfs lim it nds depth (col, path) dep of
               Inl e \<Rightarrow> Inl e
             | Inr st \<Rightarrow> dfs_deps lim it nds depth st rest)
          else dfs_deps lim it nds depth (col, path) rest)"
  by pat_completeness auto

lemma whites_update_le: "whites (AList.update k c col) \<le> whites col" if "c \<noteq> WHITE"
  using that by (induction col) (auto simp: whites_def)

lemma whites_update_less:
  "map_of col k = Some WHITE \<Longrightarrow> c \<noteq> WHITE \<Longrightarrow> whites (AList.update k c col) < whites col"
proof (induction col)
  case Nil
  then show ?case by simp
next
  case (Cons p col)
  show ?case
  proof (cases "fst p = k")
    case True
    with Cons.prems show ?thesis by (cases p) (auto simp: whites_def)
  next
    case False
    with Cons show ?thesis by (cases p) (auto simp: whites_def)
  qed
qed

lemma dfs_whites_partial:
  "dfs_dfs_deps_dom (Inl (lim, it, nds, depth, (col, path), node_name)) \<Longrightarrow>
     dfs lim it nds depth (col, path) node_name = Inr (col', path') \<Longrightarrow>
     whites col' \<le> whites (AList.update node_name GRAY col)"
  "dfs_dfs_deps_dom (Inr (lim, it, nds, depth, (col, path), deps)) \<Longrightarrow>
     dfs_deps lim it nds depth (col, path) deps = Inr (col', path') \<Longrightarrow>
     whites col' \<le> whites col"
proof (induct lim it nds depth "(col, path)" node_name and lim it nds depth "(col, path)" deps
       arbitrary: col path col' path' and col path col' path' rule: dfs_dfs_deps.pinduct)
  case (1 lim it nds depth col path node_name)
  from "1.prems" "1.hyps"(1) obtain node c2 p2 where
    room: "\<not> lim \<le> depth" and
    node: "map_of nds node_name = Some node" and
    inner: "dfs_deps lim it nds (Suc depth) (AList.update node_name GRAY col, path @ [node_name])
              (it (dependencies node)) = Inr (c2, p2)" and
    res: "col' = AList.update node_name BLACK c2"
    by (auto simp: dfs.psimps split: option.splits sum.splits if_splits)
  from "1.hyps"(2)[OF room node inner]
  have "whites c2 \<le> whites (AList.update node_name GRAY col)" .
  moreover have "whites col' \<le> whites c2"
    unfolding res by (rule whites_update_le) simp
  ultimately show ?case by simp
next
  case (2 lim it nds depth col path)
  then show ?case by (simp add: dfs_deps.psimps)
next
  case (3 lim it nds depth col path dep rest)
  from "3.prems" "3.hyps"(1) obtain c where c: "map_of col dep = Some c" and ng: "c \<noteq> GRAY"
    by (auto simp: dfs_deps.psimps split: option.splits if_splits)
  show ?case
  proof (cases "c = WHITE")
    case True
    with "3.prems" "3.hyps"(1) c ng obtain c1 p1 where
      call: "dfs lim it nds depth (col, path) dep = Inr (c1, p1)" and
      rest: "dfs_deps lim it nds depth (c1, p1) rest = Inr (col', path')"
      by (auto simp: dfs_deps.psimps split: sum.splits)
    from "3.hyps"(2)[OF c ng True call] have "whites c1 \<le> whites (AList.update dep GRAY col)" .
    also have "\<dots> \<le> whites col" by (rule whites_update_le) simp
    finally have a: "whites c1 \<le> whites col" .
    from "3.hyps"(3)[OF c ng True call rest] have "whites col' \<le> whites c1" .
    with a show ?thesis by simp
  next
    case False
    with "3.prems" "3.hyps"(1) c ng have
      rest: "dfs_deps lim it nds depth (col, path) rest = Inr (col', path')"
      by (auto simp: dfs_deps.psimps)
    from "3.hyps"(4)[OF c ng False rest] show ?thesis .
  qed
qed

termination dfs
proof (relation "inv_image (less_than <*lex*> less_than <*lex*> less_than)
    (\<lambda>x. case x of
       Inl (lim, it, nds, depth, (col, path), node_name) \<Rightarrow>
         (whites (AList.update node_name GRAY col), 1::nat, 0::nat)
     | Inr (lim, it, nds, depth, (col, path), deps) \<Rightarrow> (whites col, 0, length deps))", goal_cases)
  case 1
  show ?case by (intro wf_inv_image wf_lex_prod wf_less_than)
next
  case (2 lim depth it nds col path node_name x2)
  then show ?case by simp
next
  case (3 lim it nds depth col path dep rest x2)
  then show ?case by (simp add: whites_update_less)
next
  case (4 lim it nds depth col path dep rest x2 b)
  obtain c1 p1 where b: "b = (c1, p1)" by (cases b)
  from dfs_whites_partial(1)[OF 4(5) 4(4)[unfolded b]]
  have "whites c1 \<le> whites (AList.update dep GRAY col)" .
  also have "\<dots> \<le> whites col" by (rule whites_update_le) simp
  finally show ?case by (auto simp: b)
next
  case (5 lim it nds depth col path dep rest x2)
  then show ?case by simp
qed

text \<open>\<^verbatim>\<open>color = {name: WHITE for name in self.nodes}\<close>\<close>

definition initial_colors :: "nodes \<Rightarrow> colors" where
  "initial_colors nds = map (\<lambda>kv. (fst kv, WHITE)) nds"

text \<open>The final loop \<^verbatim>\<open>for name in self.nodes: if color[name] == WHITE: dfs(name)\<close>.\<close>

fun visit_all :: "nat \<Rightarrow> set_order \<Rightarrow> nodes \<Rightarrow> colors \<times> string list \<Rightarrow> string list
                    \<Rightarrow> error + (colors \<times> string list)" where
  "visit_all lim it nds st [] = Inr st"
| "visit_all lim it nds st (nm # rest) =
     (case map_of (fst st) nm of
        None \<Rightarrow> Inl (KeyError nm)
      | Some c \<Rightarrow>
          if c = WHITE then
            (case dfs lim it nds 0 st nm of
               Inl e \<Rightarrow> Inl e
             | Inr st' \<Rightarrow> visit_all lim it nds st' rest)
          else visit_all lim it nds st rest)"

definition detect_cycles :: "nat \<Rightarrow> set_order \<Rightarrow> nodes \<Rightarrow> error + unit" where
  "detect_cycles lim it nds =
     (case visit_all lim it nds (initial_colors nds, []) (map fst nds) of
        Inl e \<Rightarrow> Inl e
      | Inr st \<Rightarrow> Inr ())"

text \<open>\<^verbatim>\<open>_build\<close>, started on the node table \<open>nds\<close> (which \<^verbatim>\<open>__init__\<close> sets to the
  empty dict), and the constructor.\<close>

definition build :: "nat \<Rightarrow> set_order \<Rightarrow> nodes \<Rightarrow> TestPlan \<Rightarrow> error + nodes" where
  "build lim it nds plan =
     (case build_relationships (create_nodes nds (suites plan)) (suites plan) of
        Inl e \<Rightarrow> Inl e
      | Inr nds' \<Rightarrow>
          (case detect_cycles lim it nds' of
             Inl e \<Rightarrow> Inl e
           | Inr u \<Rightarrow> Inr nds'))"

definition DAGBuilder :: "nat \<Rightarrow> set_order \<Rightarrow> TestPlan \<Rightarrow> error + nodes" where
  "DAGBuilder lim it plan = build lim it [] plan"

subsection \<open>\<^verbatim>\<open>get_execution_order\<close>\<close>

type_synonym in_degrees = "(string \<times> int) list"

definition initial_in_degree :: "nodes \<Rightarrow> in_degrees" where
  "initial_in_degree nds = map (\<lambda>kv. (fst kv, int (length (dependencies (snd kv))))) nds"

definition initial_queue :: "in_degrees \<Rightarrow> string list" where
  "initial_queue in_degree = map fst (filter (\<lambda>kv. snd kv = 0) in_degree)"

text \<open>\<^verbatim>\<open>for dependent in node.dependents\<close>: decrement, and enqueue at zero.\<close>

fun update_dependents :: "in_degrees \<Rightarrow> string list \<Rightarrow> string list
                            \<Rightarrow> error + (in_degrees \<times> string list)" where
  "update_dependents in_degree queue [] = Inr (in_degree, queue)"
| "update_dependents in_degree queue (dependent # rest) =
     (case map_of in_degree dependent of
        None \<Rightarrow> Inl (KeyError dependent)
      | Some d \<Rightarrow>
          update_dependents (AList.update dependent (d - 1) in_degree)
            (if d - 1 = 0 then queue @ [dependent] else queue) rest)"

text \<open>\<^verbatim>\<open>for name in current_group\<close>: the node's flag \<^verbatim>\<open>executed\<close> is set, then its
  dependents are updated. The node table is returned in every case.\<close>

fun process_group :: "set_order \<Rightarrow> nodes \<Rightarrow> in_degrees \<Rightarrow> string list \<Rightarrow> string list
                        \<Rightarrow> nodes \<times> (error + (in_degrees \<times> string list))" where
  "process_group it nds in_degree queue [] = (nds, Inr (in_degree, queue))"
| "process_group it nds in_degree queue (nm # rest) =
     (case map_of nds nm of
        None \<Rightarrow> (nds, Inl (KeyError nm))
      | Some node \<Rightarrow>
          let nds' = AList.map_entry nm (\<lambda>node. node\<lparr>executed := True\<rparr>) nds in
          (case update_dependents in_degree queue (it (dependents node)) of
             Inl e \<Rightarrow> (nds', Inl e)
           | Inr (in_degree', queue') \<Rightarrow> process_group it nds' in_degree' queue' rest))"

definition pos_sum :: "in_degrees \<Rightarrow> nat" where
  "pos_sum in_degree = sum_list (map (\<lambda>kv. nat (snd kv)) in_degree)"

text \<open>\<^verbatim>\<open>while queue:\<close>\<close>

function schedule_loop :: "set_order \<Rightarrow> nodes \<Rightarrow> in_degrees \<Rightarrow> string list \<Rightarrow> string list list
                        \<Rightarrow> nodes \<times> (error + string list list)" where
  "schedule_loop it nds in_degree queue groups =
     (if queue = [] then (nds, Inr groups)
      else
        (case process_group it nds in_degree [] queue of
           (nds', Inl e) \<Rightarrow> (nds', Inl e)
         | (nds', Inr (in_degree', queue')) \<Rightarrow>
             schedule_loop it nds' in_degree' queue' (groups @ [queue])))"
  by pat_completeness auto

lemma pos_sum_update:
  "map_of d k = Some v0 \<Longrightarrow> pos_sum (AList.update k v d) + nat v0 = pos_sum d + nat v"
  by (induction d) (auto simp: pos_sum_def)

lemma update_dependents_potential:
  "update_dependents d q ds = Inr (d', q') \<Longrightarrow> pos_sum d' + length q' \<le> pos_sum d + length q"
proof (induction ds arbitrary: d q)
  case Nil
  then show ?case by simp
next
  case (Cons x ds)
  from Cons.prems obtain v where v: "map_of d x = Some v"
    and rest: "update_dependents (AList.update x (v - 1) d)
                 (if v - 1 = 0 then q @ [x] else q) ds = Inr (d', q')"
    by (auto split: option.splits)
  from Cons.IH[OF rest] pos_sum_update[OF v, of "v - 1"]
  show ?case by (auto split: if_splits)
qed

lemma process_group_potential:
  "process_group it nds d q grp = (nds', Inr (d', q')) \<Longrightarrow>
     pos_sum d' + length q' \<le> pos_sum d + length q"
proof (induction grp arbitrary: nds d q)
  case Nil
  then show ?case by simp
next
  case (Cons x grp)
  from Cons.prems obtain node :: DAGNode and d1 q1 where
    upd: "update_dependents d q (it (dependents node)) = Inr (d1, q1)" and
    rest: "process_group it (AList.map_entry x (\<lambda>node. node\<lparr>executed := True\<rparr>) nds) d1 q1 grp
             = (nds', Inr (d', q'))"
    by (auto simp: Let_def split: option.splits sum.splits)
  from Cons.IH[OF rest] update_dependents_potential[OF upd] show ?case by simp
qed

termination schedule_loop
proof (relation "measure (\<lambda>(it, nds, d, q, groups). pos_sum d + (if q = [] then 0 else 1))", goal_cases)
  case 1
  show ?case by simp
next
  case (2 it nds d q groups x1 x2 y x3 x4)
  from process_group_potential[of it nds d "[]" q x1 x3 x4] 2
  show ?case by (cases x4) (auto split: if_splits)
qed

definition get_execution_order :: "set_order \<Rightarrow> nodes \<Rightarrow> nodes \<times> (error + string list list)" where
  "get_execution_order it nds =
     (let in_degree = initial_in_degree nds in
      case schedule_loop it nds in_degree (initial_queue in_degree) [] of
        (nds', Inl e) \<Rightarrow> (nds', Inl e)
      | (nds', Inr groups) \<Rightarrow>
          let unexecuted = map fst (filter (\<lambda>kv. \<not> executed (snd kv)) nds') in
          if unexecuted \<noteq> [] then (nds', Inl (SchedulingIncomplete unexecuted))
          else (nds', Inr groups))"

subsection \<open>\<^verbatim>\<open>get_parallel_groups\<close>\<close>

text \<open>\<^verbatim>\<open>range(start, stop, step)\<close> as a list, and the slice \<^verbatim>\<open>xs[i:j]\<close> with Python's
  clamping of the bounds.\<close>

definition py_range :: "int \<Rightarrow> int \<Rightarrow> int \<Rightarrow> error + int list" where
  "py_range start stop step =
     (if step = 0 then Inl RangeStepZero
      else if 0 < step then
        Inr (map (\<lambda>k. start + int k * step) [0 ..< nat ((stop - start + step - 1) div step)])
      else
        Inr (map (\<lambda>k. start + int k * step) [0 ..< nat ((start - stop - step - 1) div (- step))]))"

definition slice_bound :: "nat \<Rightarrow> int \<Rightarrow> nat" where
  "slice_bound n i = (if i < 0 then nat (max (i + int n) 0) else min (nat i) n)"

definition py_slice :: "'a list \<Rightarrow> int \<Rightarrow> int \<Rightarrow> 'a list" where
  "py_slice xs i j =
     (let lo = slice_bound (length xs) i; hi = slice_bound (length xs) j
      in take (hi - lo) (drop lo xs))"

text \<open>\<^verbatim>\<open>for i in range(0, len(group), max_parallel): result.append(group[i:i + max_parallel])\<close>\<close>

fun append_chunks :: "string list list \<Rightarrow> string list \<Rightarrow> int \<Rightarrow> int list \<Rightarrow> string list list" where
  "append_chunks result grp max_parallel [] = result"
| "append_chunks result grp max_parallel (i # rest) =
     append_chunks (result @ [py_slice grp i (i + max_parallel)]) grp max_parallel rest"

text \<open>\<^verbatim>\<open>for group in groups\<close>\<close>

fun split_groups :: "string list list \<Rightarrow> string list list \<Rightarrow> int \<Rightarrow> error + string list list" where
  "split_groups result [] max_parallel = Inr result"
| "split_groups result (grp # rest) max_parallel =
     (case py_range 0 (int (length grp)) max_parallel of
        Inl e \<Rightarrow> Inl e
      | Inr indices \<Rightarrow>
          split_groups (append_chunks result grp max_parallel indices) rest max_parallel)"

definition get_parallel_groups :: "set_order \<Rightarrow> nodes \<Rightarrow> int \<Rightarrow> nodes \<times> (error + string list list)" where
  "get_parallel_groups it nds max_parallel =
     (case get_execution_order it nds of
        (nds', Inl e) \<Rightarrow> (nds', Inl e)
      | (nds', Inr groups) \<Rightarrow> (nds', split_groups [] groups max_parallel))"

subsection \<open>Runtime state: \<^verbatim>\<open>mark_executed\<close>, \<^verbatim>\<open>is_ready\<close>, \<^verbatim>\<open>get_ready_suites\<close>, \<^verbatim>\<open>get_stats\<close>\<close>

definition mark_executed :: "nodes \<Rightarrow> string \<Rightarrow> string \<Rightarrow> nodes" where
  "mark_executed nds nm st =
     (if map_of nds nm \<noteq> None
      then AList.map_entry nm (\<lambda>node. node\<lparr>executed := True, status := Some st\<rparr>) nds
      else nds)"

text \<open>\<^verbatim>\<open>all(self.nodes[dep].executed for dep in ...)\<close> stops at the first unexecuted
  dependency; a name that is no key raises \<^verbatim>\<open>KeyError\<close> when it is reached.\<close>

fun all_executed :: "nodes \<Rightarrow> string list \<Rightarrow> error + bool" where
  "all_executed nds [] = Inr True"
| "all_executed nds (dep # rest) =
     (case map_of nds dep of
        None \<Rightarrow> Inl (KeyError dep)
      | Some node \<Rightarrow> if executed node then all_executed nds rest else Inr False)"

definition is_ready :: "set_order \<Rightarrow> nodes \<Rightarrow> string \<Rightarrow> error + bool" where
  "is_ready it nds nm =
     (case map_of nds nm of
        None \<Rightarrow> Inr False
      | Some node \<Rightarrow> all_executed nds (it (dependencies node)))"

text \<open>The comprehension of \<^verbatim>\<open>get_ready_suites\<close> over \<^verbatim>\<open>self.nodes.items()\<close>;
  \<open>items\<close> is the part of the table still to visit.\<close>

fun ready_items :: "set_order \<Rightarrow> nodes \<Rightarrow> nodes \<Rightarrow> error + string list" where
  "ready_items it nds [] = Inr []"
| "ready_items it nds (kv # items) =
     (if \<not> executed (snd kv) then
        (case is_ready it nds (fst kv) of
           Inl e \<Rightarrow> Inl e
         | Inr r \<Rightarrow>
             (case ready_items it nds items of
                Inl e \<Rightarrow> Inl e
              | Inr found \<Rightarrow> Inr (if r then fst kv # found else found)))
      else ready_items it nds items)"

definition get_ready_suites :: "set_order \<Rightarrow> nodes \<Rightarrow> error + string list" where
  "get_ready_suites it nds = ready_items it nds nds"

text \<open>\<^verbatim>\<open>get_stats\<close> returns a dict with four integer entries; the counts are taken
  before \<^verbatim>\<open>get_execution_order\<close> runs.\<close>

definition get_stats :: "set_order \<Rightarrow> nodes \<Rightarrow> nodes \<times> (error + (string \<times> int) list)" where
  "get_stats it nds =
     (let total = int (length nds);
          executed_count = int (length (filter (\<lambda>kv. executed (snd kv)) nds));
          pending = total - executed_count
      in case get_execution_order it nds of
           (nds', Inl e) \<Rightarrow> (nds', Inl e)
         | (nds', Inr groups) \<Rightarrow>
             (nds', Inr [(''total_suites'', total), (''executed'', executed_count),
                         (''pending'', pending), (''parallel_groups'', int (length groups))]))"

subsection \<open>Example data and auxiliary notions for the statements\<close>

definition example_suite :: "string \<Rightarrow> string list \<Rightarrow> TestSuite" where
  "example_suite nm deps =
     \<lparr>name = nm, category = ''unit'', files = [], dependencies = deps,
      config = \<lparr>timeout = 300, retries = 0, parallel = True, coverage = True\<rparr>\<rparr>"

definition example_plan :: "TestSuite list \<Rightarrow> TestPlan" where
  "example_plan ss = \<lparr>plan_id = ''plan'', version = ''1.0'', suites = ss\<rparr>"

definition erase_status :: "nodes \<Rightarrow> nodes" where
  "erase_status nds = map (\<lambda>kv. (fst kv, (snd kv)\<lparr>status := None\<rparr>)) nds"

text \<open>The chunks of a group, as the specification describes them: consecutive
  pieces of \<open>m\<close> elements, the last one possibly shorter.\<close>

definition chunks :: "nat \<Rightarrow> 'a list \<Rightarrow> 'a list list" where
  "chunks m xs = map (\<lambda>k. take m (drop (k * m) xs)) [0 ..< (length xs + m - 1) div m]"

text \<open>The dependency and dependent sets stored under a name (empty for a name that
  is no node), and the dependency relation a plan declares.\<close>

definition deps_of :: "nodes \<Rightarrow> string \<Rightarrow> string list" where
  "deps_of nds k = (case map_of nds k of None \<Rightarrow> [] | Some node \<Rightarrow> dependencies node)"

definition dependents_of :: "nodes \<Rightarrow> string \<Rightarrow> string list" where
  "dependents_of nds k = (case map_of nds k of None \<Rightarrow> [] | Some node \<Rightarrow> dependents node)"

definition depends_on :: "TestPlan \<Rightarrow> string \<Rightarrow> string \<Rightarrow> bool" where
  "depends_on plan a b \<longleftrightarrow>
     (\<exists>s \<in> set (suites plan). name s = a \<and> b \<in> set (TestSuite.dependencies s))"

text \<open>The invariants of section 3 of the specification that the proofs use: keys
  are unique, both edge sets are duplicate-free and stay inside the graph, and they
  are inverse to each other.\<close>

definition well_formed :: "nodes \<Rightarrow> bool" where
  "well_formed nds \<longleftrightarrow>
     distinct (map fst nds) \<and>
     (\<forall>k. distinct (deps_of nds k) \<and> distinct (dependents_of nds k) \<and>
          set (deps_of nds k) \<subseteq> fst ` set nds \<and> set (dependents_of nds k) \<subseteq> fst ` set nds) \<and>
     (\<forall>a b. b \<in> set (deps_of nds a) \<longleftrightarrow> a \<in> set (dependents_of nds b))"

text \<open>The fields of a node that the second pass of \<^verbatim>\<open>_build\<close> does not touch.\<close>

definition frame :: "DAGNode \<Rightarrow> TestSuite \<times> bool \<times> string option" where
  "frame node = (suite node, executed node, status node)"

text \<open>What the runtime operations leave alone: the keys in their order and, per
  node, the suite and the two edge sets.\<close>

definition shape :: "nodes \<Rightarrow> (string \<times> TestSuite \<times> string list \<times> string list) list" where
  "shape nds = map (\<lambda>kv. (fst kv, suite (snd kv), dependencies (snd kv), dependents (snd kv))) nds"

text \<open>The methods that mutate the node objects, and the node table after a sequence
  of calls on a graph. The queries \<^verbatim>\<open>is_ready\<close>, \<^verbatim>\<open>get_ready_suites\<close>,
  \<^verbatim>\<open>get_suite\<close> and \<^verbatim>\<open>get_dependencies\<close> write nothing.\<close>

datatype call =
    MarkExecuted string string
  | GetExecutionOrder
  | GetParallelGroups int
  | GetStats

fun perform :: "set_order \<Rightarrow> nodes \<Rightarrow> call \<Rightarrow> nodes" where
  "perform it nds (MarkExecuted nm st) = mark_executed nds nm st"
| "perform it nds GetExecutionOrder = fst (get_execution_order it nds)"
| "perform it nds (GetParallelGroups max_parallel) = fst (get_parallel_groups it nds max_parallel)"
| "perform it nds GetStats = fst (get_stats it nds)"

definition after_calls :: "set_order \<Rightarrow> nodes \<Rightarrow> call list \<Rightarrow> nodes" where
  "after_calls it nds calls = foldl (perform it) nds calls"

text \<open>The execution flag stored under a name.\<close>

definition is_executed :: "nodes \<Rightarrow> string \<Rightarrow> bool" where
  "is_executed nds k = (case map_of nds k of None \<Rightarrow> False | Some node \<Rightarrow> executed node)"

text \<open>The edges of a graph (from a suite to each of its dependencies), and what it
  means for a reported path to be a closed loop of edges: at least two entries, the
  first equal to the last, and every consecutive pair an edge.\<close>

definition has_edge :: "nodes \<Rightarrow> string \<Rightarrow> string \<Rightarrow> bool" where
  "has_edge nds a b \<longleftrightarrow> b \<in> set (deps_of nds a)"

definition edges :: "nodes \<Rightarrow> (string \<times> string) set" where
  "edges nds = {(a, b). has_edge nds a b}"

definition closed_loop :: "(string \<Rightarrow> string \<Rightarrow> bool) \<Rightarrow> string list \<Rightarrow> bool" where
  "closed_loop E cyc \<longleftrightarrow> 2 \<le> length cyc \<and> hd cyc = last cyc \<and> successively E cyc"

text \<open>The invariant of the traversal: the colour table has the graph's keys; the
  grey names are exactly the current path, which is duplicate-free and a chain of
  edges; every dependency of a black name is black; no black name lies on a cycle.\<close>

definition dfs_inv :: "nodes \<Rightarrow> colors \<times> string list \<Rightarrow> bool" where
  "dfs_inv nds st \<longleftrightarrow>
     dom (map_of (fst st)) = fst ` set nds \<and>
     distinct (snd st) \<and>
     set (snd st) = {k. map_of (fst st) k = Some GRAY} \<and>
     successively (has_edge nds) (snd st) \<and>
     (\<forall>k d. map_of (fst st) k = Some BLACK \<longrightarrow> has_edge nds k d \<longrightarrow> map_of (fst st) d = Some BLACK) \<and>
     (\<forall>k. map_of (fst st) k = Some BLACK \<longrightarrow> (k, k) \<notin> (edges nds)\<^sup>+)"

text \<open>What a successful run of \<^verbatim>\<open>dfs\<close> (or of its loop) establishes: the path is
  restored, the invariant holds, the names in \<open>X\<close> are black and black names stay
  black.\<close>

definition dfs_post :: "nodes \<Rightarrow> colors \<times> string list \<Rightarrow> string set \<Rightarrow> colors \<times> string list \<Rightarrow> bool" where
  "dfs_post nds st X st' \<longleftrightarrow>
     snd st' = snd st \<and> dfs_inv nds st' \<and>
     (\<forall>k \<in> X. map_of (fst st') k = Some BLACK) \<and>
     (\<forall>k. map_of (fst st) k = Some BLACK \<longrightarrow> map_of (fst st') k = Some BLACK)"

definition dfs_result_ok :: "nat \<Rightarrow> nodes \<Rightarrow> colors \<times> string list \<Rightarrow> string set
                              \<Rightarrow> error + (colors \<times> string list) \<Rightarrow> bool" where
  "dfs_result_ok lim nds st X r \<longleftrightarrow>
     (case r of
        Inl e \<Rightarrow> (\<exists>cyc. e = CircularDependency cyc \<and> closed_loop (has_edge nds) cyc) \<or>
                 (e = RecursionError \<and> lim < card (fst ` set nds))
      | Inr st' \<Rightarrow> dfs_post nds st X st')"

text \<open>The properties of a plan that the claims speak of: every dependency names a
  suite of the plan; the declared dependency relation.\<close>

definition valid_references :: "TestPlan \<Rightarrow> bool" where
  "valid_references plan \<longleftrightarrow>
     (\<forall>s \<in> set (suites plan). \<forall>d \<in> set (TestSuite.dependencies s). d \<in> name ` set (suites plan))"

definition dependency_relation :: "TestPlan \<Rightarrow> (string \<times> string) set" where
  "dependency_relation plan = {(a, b). depends_on plan a b}"

text \<open>Notions for the level schedule: the names whose in-degree passed from a
  positive value to zero or below between two in-degree tables, and a queue whose
  members are all at zero or below.\<close>

definition crossed :: "in_degrees \<Rightarrow> in_degrees \<Rightarrow> string set" where
  "crossed d d' = {k. \<exists>v v'. map_of d k = Some v \<and> map_of d' k = Some v' \<and> 1 \<le> v \<and> v' \<le> 0}"

definition settled :: "in_degrees \<Rightarrow> string list \<Rightarrow> bool" where
  "settled d q \<longleftrightarrow> distinct q \<and> (\<forall>k \<in> set q. \<exists>v. map_of d k = Some v \<and> v \<le> 0)"

text \<open>A suite lies in a strictly later group than each of its dependencies.\<close>

definition levels_ok :: "(string \<Rightarrow> string \<Rightarrow> bool) \<Rightarrow> string list list \<Rightarrow> bool" where
  "levels_ok E groups \<longleftrightarrow>
     (\<forall>i < length groups. \<forall>s \<in> set (groups ! i). \<forall>d. E s d \<longrightarrow> (\<exists>j < i. d \<in> set (groups ! j)))"

text \<open>The invariant of the \<^verbatim>\<open>while queue\<close> loop, with \<open>concat groups\<close> the names
  scheduled so far: the in-degree of a name counts its dependencies not yet
  scheduled, and the queue holds exactly the unscheduled names whose dependencies
  are all scheduled.\<close>

definition kahn_inv :: "nodes \<Rightarrow> in_degrees \<Rightarrow> string list \<Rightarrow> string list list \<Rightarrow> bool" where
  "kahn_inv nds d queue groups \<longleftrightarrow>
     map fst d = map fst nds \<and>
     distinct (concat groups @ queue) \<and>
     set (concat groups @ queue) \<subseteq> fst ` set nds \<and>
     (\<forall>k \<in> fst ` set nds.
        map_of d k = Some (int (card (set (deps_of nds k) - set (concat groups))))) \<and>
     set queue = {k \<in> fst ` set nds. k \<notin> set (concat groups) \<and>
                    set (deps_of nds k) \<subseteq> set (concat groups)} \<and>
     levels_ok (has_edge nds) groups \<and>
     (\<forall>k \<in> set (concat groups). is_executed nds k) \<and>
     [] \<notin> set groups"

text \<open>The status recorded for each key, in key order.\<close>

definition statuses :: "nodes \<Rightarrow> (string \<times> string option) list" where
  "statuses nds = map (\<lambda>kv. (fst kv, status (snd kv))) nds"

text \<open>A dependency chain of \<open>n\<close> suites, each depending on the next one; the names
  are \<open>s\<close>, \<open>ss\<close>, \<open>sss\<close>, ...\<close>

definition chain_name :: "nat \<Rightarrow> string" where
  "chain_name i = replicate (Suc i) CHR ''s''"

definition chain_suites :: "nat \<Rightarrow> TestSuite list" where
  "chain_suites n =
     map (\<lambda>i. example_suite (chain_name i) (if Suc i < n then [chain_name (Suc i)] else []))
       [0 ..< n]"

section \<open>Properties\<close>

subsection \<open>Association lists\<close>

lemma map_entry_absent: "map_of xs k = None \<Longrightarrow> AList.map_entry k f xs = xs"
  by (induction xs) (auto split: if_splits)

lemma map_entry_twice: "AList.map_entry k f (AList.map_entry k g xs) = AList.map_entry k (f \<circ> g) xs"
  by (induction xs) auto

lemma map_of_map_entry_same:
  "map_of xs k = Some v \<Longrightarrow> map_of (AList.map_entry k f xs) k = Some (f v)"
  by (simp add: map_of_map_entry)

subsection \<open>Readiness does not read the status\<close>

lemma map_of_erase_status:
  "map_of (erase_status nds) k = map_option (\<lambda>n. n\<lparr>status := None\<rparr>) (map_of nds k)"
  by (induction nds) (auto simp: erase_status_def)

lemma all_executed_erase_status: "all_executed (erase_status nds) ds = all_executed nds ds"
  by (induction ds) (auto simp: map_of_erase_status split: option.splits)

lemma is_ready_erase_status: "is_ready it (erase_status nds) nm = is_ready it nds nm"
  by (auto simp: is_ready_def map_of_erase_status all_executed_erase_status split: option.splits)

lemma ready_items_erase_status:
  "ready_items it (erase_status nds) (erase_status items) = ready_items it nds items"
proof (induction items)
  case Nil
  then show ?case by (simp add: erase_status_def)
next
  case (Cons kv items)
  have "erase_status (kv # items) = (fst kv, (snd kv)\<lparr>status := None\<rparr>) # erase_status items"
    by (simp add: erase_status_def)
  with Cons show ?case by (simp add: is_ready_erase_status split: sum.splits)
qed

lemma get_ready_suites_erase_status:
  "get_ready_suites it (erase_status nds) = get_ready_suites it nds"
  by (simp add: get_ready_suites_def ready_items_erase_status)

lemma erase_status_map_entry:
  "erase_status (AList.map_entry k (\<lambda>node. node\<lparr>executed := True, status := Some st\<rparr>) nds)
     = AList.map_entry k (\<lambda>node. node\<lparr>executed := True\<rparr>) (erase_status nds)"
  by (induction nds) (auto simp: erase_status_def)

lemma erase_status_mark_executed:
  "erase_status (mark_executed nds nm s1) = erase_status (mark_executed nds nm s2)"
  by (simp add: mark_executed_def erase_status_map_entry)

subsection \<open>Splitting groups\<close>

lemma append_chunks_eq:
  "append_chunks result grp mp is = result @ map (\<lambda>i. py_slice grp i (i + mp)) is"
  by (induction "is" arbitrary: result) auto

lemma py_range_pos:
  assumes "0 < m"
  shows "py_range 0 (int n) (int m) = Inr (map (\<lambda>k. int (k * m)) [0 ..< (n + m - 1) div m])"
proof -
  have "(int n - 0 + int m - 1) div int m = int ((n + m - 1) div m)"
    using assms by (simp add: zdiv_int of_nat_diff)
  then show ?thesis using assms by (simp add: py_range_def)
qed

lemma slice_bound_nat: "slice_bound n (int a) = min a n"
  by (simp add: slice_bound_def)

lemma py_slice_nat: "py_slice xs (int a) (int a + int m) = take m (drop a xs)"
proof -
  have "py_slice xs (int a) (int (a + m)) = take (min (a + m) (length xs) - min a (length xs))
          (drop (min a (length xs)) xs)"
    unfolding py_slice_def slice_bound_nat by (simp add: Let_def)
  also have "\<dots> = take m (drop a xs)"
  proof (cases "a \<le> length xs")
    case True
    then have "min (a + m) (length xs) - min a (length xs) = min m (length xs - a)"
      by arith
    moreover have "take (min m (length xs - a)) (drop a xs) = take m (drop a xs)"
      by (simp add: min_def)
    ultimately show ?thesis using True by (simp add: min_absorb1)
  next
    case False
    then show ?thesis by (simp add: min_def)
  qed
  finally show ?thesis by simp
qed

lemma py_slice_chunk:
  "py_slice xs (int (k * m)) (int (k * m) + int m) = take m (drop (k * m) xs)"
  by (rule py_slice_nat)

lemma split_groups_eq:
  assumes "0 < m"
  shows "split_groups result groups (int m) = Inr (result @ concat (map (chunks m) groups))"
proof (induction groups arbitrary: result)
  case Nil
  then show ?case by simp
next
  case (Cons grp groups)
  have "append_chunks result grp (int m) (map (\<lambda>k. int (k * m)) [0 ..< (length grp + m - 1) div m])
          = result @ chunks m grp"
    by (simp add: append_chunks_eq chunks_def comp_def py_slice_chunk del: of_nat_mult)
  with Cons show ?case by (simp add: py_range_pos[OF assms])
qed

lemma concat_take_drop:
  "concat (map (\<lambda>k. take m (drop (k * m) xs)) [0 ..< K]) = take (K * m) xs"
proof (induction K)
  case 0
  then show ?case by simp
next
  case (Suc K)
  have "take (K * m) xs @ take m (drop (K * m) xs) = take (K * m + m) xs"
    by (simp add: take_add)
  with Suc show ?case by (simp add: add.commute)
qed

lemma chunks_cover: "0 < m \<Longrightarrow> length xs \<le> ((length xs + m - 1) div m) * m"
proof -
  assume m: "0 < m"
  define x where "x = length xs + m - 1"
  have "x = (x div m) * m + x mod m" by simp
  moreover have "x mod m < m" using m by simp
  ultimately have "x < (x div m) * m + m" by linarith
  then have "length xs + m - 1 < ((length xs + m - 1) div m) * m + m" by (simp only: x_def)
  then show ?thesis using m by linarith
qed

lemma concat_chunks:
  assumes "0 < m"
  shows "concat (chunks m xs) = xs"
  unfolding chunks_def concat_take_drop
  by (rule take_all) (rule chunks_cover[OF assms])

lemma chunk_start: "0 < m \<Longrightarrow> k < (n + m - 1) div m \<Longrightarrow> k * m < (n::nat)"
proof -
  assume m: "0 < m" and k: "k < (n + m - 1) div m"
  from k have "Suc k \<le> (n + m - 1) div m" by simp
  then have "Suc k * m \<le> ((n + m - 1) div m) * m" by (rule mult_le_mono1)
  also have "\<dots> \<le> n + m - 1" by simp
  finally show ?thesis using m by simp
qed

lemma chunk_full: "0 < m \<Longrightarrow> Suc k < (n + m - 1) div m \<Longrightarrow> k * m + m \<le> (n::nat)"
proof -
  assume "0 < m" and "Suc k < (n + m - 1) div m"
  then have "Suc k * m < n" by (rule chunk_start)
  then show ?thesis by simp
qed

lemma concat_concat_chunks: "0 < m \<Longrightarrow> concat (concat (map (chunks m) groups)) = concat groups"
  by (induction groups) (simp_all add: concat_chunks)

lemma chunks_sizes:
  assumes "0 < m"
  shows "\<forall>c \<in> set (chunks m xs). c \<noteq> [] \<and> length c \<le> m"
    and "\<forall>j. Suc j < length (chunks m xs) \<longrightarrow> length (chunks m xs ! j) = m"
proof -
  show "\<forall>c \<in> set (chunks m xs). c \<noteq> [] \<and> length c \<le> m"
  proof
    fix c assume "c \<in> set (chunks m xs)"
    then obtain k where k: "k < (length xs + m - 1) div m" and c: "c = take m (drop (k * m) xs)"
      by (auto simp: chunks_def)
    from chunk_start[OF assms k] have "k * m < length xs" .
    then show "c \<noteq> [] \<and> length c \<le> m" using assms c by simp
  qed
  show "\<forall>j. Suc j < length (chunks m xs) \<longrightarrow> length (chunks m xs ! j) = m"
  proof (intro allI impI)
    fix j assume "Suc j < length (chunks m xs)"
    then have j: "Suc j < (length xs + m - 1) div m" by (simp add: chunks_def)
    from chunk_full[OF assms j] have "j * m + m \<le> length xs" .
    moreover have "chunks m xs ! j = take m (drop (j * m) xs)"
      using j by (simp add: chunks_def)
    ultimately show "length (chunks m xs ! j) = m" by simp
  qed
qed

lemma chunks_10_4: "length xs = 10 \<Longrightarrow> map length (chunks 4 xs) = [4, 4, 2]"
proof -
  assume "length xs = 10"
  moreover have "[0 ..< 3] = [0, 1, 2]" by (simp add: upt_rec)
  ultimately show ?thesis by (simp add: chunks_def)
qed

subsection \<open>Graph construction\<close>

lemma map_fst_map_entry: "map fst (AList.map_entry k f xs) = map fst xs"
  by (induction xs) auto

lemma map_fst_update_present:
  "map_of xs k \<noteq> None \<Longrightarrow> map fst (AList.update k v xs) = map fst xs"
  by (induction xs) auto

lemma map_of_eq_None_keys: "map_of xs k = None \<longleftrightarrow> k \<notin> fst ` set xs"
  by (simp add: map_of_eq_None_iff)

lemma set_set_add: "set (set_add x xs) = insert x (set xs)"
  by (auto simp: set_add_def)

lemma distinct_set_add: "distinct xs \<Longrightarrow> distinct (set_add x xs)"
  by (auto simp: set_add_def)

lemma find_append:
  "find P (xs @ ys) = (case find P xs of None \<Rightarrow> find P ys | Some x \<Rightarrow> Some x)"
  by (induction xs) auto

lemma create_nodes_map_of:
  "map_of (create_nodes nds ss) k =
     (case find (\<lambda>s. name s = k) (rev ss) of
        None \<Rightarrow> map_of nds k
      | Some s \<Rightarrow> Some (new_node s))"
proof (induction ss arbitrary: nds)
  case Nil
  then show ?case by simp
next
  case (Cons s ss)
  show ?case
    by (simp add: Cons.IH find_append update_conv' split: option.splits)
qed

lemma create_nodes_keys:
  "fst ` set (create_nodes nds ss) = fst ` set nds \<union> name ` set ss"
  by (induction ss arbitrary: nds) (auto simp: dom_update)

lemma create_nodes_distinct:
  "distinct (map fst nds) \<Longrightarrow> distinct (map fst (create_nodes nds ss))"
  by (induction ss arbitrary: nds) (auto simp: distinct_update)

text \<open>One pass of the inner loop body.\<close>

lemma deps_of_step:
  "deps_of (AList.map_entry d (\<lambda>node. node\<lparr>dependents := set_add a (dependents node)\<rparr>)
             (AList.map_entry a (\<lambda>node. node\<lparr>dependencies := set_add d (dependencies node)\<rparr>) nds)) k
     = (if k = a \<and> map_of nds a \<noteq> None then set_add d (deps_of nds k) else deps_of nds k)"
  by (auto simp: deps_of_def map_of_map_entry split: option.splits)

lemma dependents_of_step:
  "dependents_of (AList.map_entry d (\<lambda>node. node\<lparr>dependents := set_add a (dependents node)\<rparr>)
             (AList.map_entry a (\<lambda>node. node\<lparr>dependencies := set_add d (dependencies node)\<rparr>) nds)) k
     = (if k = d \<and> map_of nds d \<noteq> None then set_add a (dependents_of nds k) else dependents_of nds k)"
  by (auto simp: dependents_of_def map_of_map_entry split: option.splits)

lemma add_dependencies_keys:
  "add_dependencies nds a ds = Inr nds' \<Longrightarrow> map fst nds' = map fst nds"
  by (induction ds arbitrary: nds) (auto simp: Let_def map_fst_map_entry split: if_splits)

lemma add_dependencies_known:
  "add_dependencies nds a ds = Inr nds' \<Longrightarrow> set ds \<subseteq> fst ` set nds"
proof (induction ds arbitrary: nds)
  case Nil
  then show ?case by simp
next
  case (Cons d ds)
  let ?n2 = "AList.map_entry d (\<lambda>node. node\<lparr>dependents := set_add a (dependents node)\<rparr>)
             (AList.map_entry a (\<lambda>node. node\<lparr>dependencies := set_add d (dependencies node)\<rparr>) nds)"
  from Cons.prems have d: "map_of nds d \<noteq> None" and rest: "add_dependencies ?n2 a ds = Inr nds'"
    by (auto simp: Let_def split: if_splits)
  from Cons.IH[OF rest] have "set ds \<subseteq> fst ` set ?n2" .
  then have "set ds \<subseteq> fst ` set nds" by (simp add: dom_map_entry)
  moreover from d have "d \<in> fst ` set nds" by (simp add: map_of_eq_None_keys)
  ultimately show ?case by simp
qed

lemma add_dependencies_deps:
  "add_dependencies nds a ds = Inr nds' \<Longrightarrow> map_of nds a \<noteq> None \<Longrightarrow>
     set (deps_of nds' k) = set (deps_of nds k) \<union> (if k = a then set ds else {})"
proof (induction ds arbitrary: nds)
  case Nil
  then show ?case by simp
next
  case (Cons d ds)
  let ?n2 = "AList.map_entry d (\<lambda>node. node\<lparr>dependents := set_add a (dependents node)\<rparr>)
             (AList.map_entry a (\<lambda>node. node\<lparr>dependencies := set_add d (dependencies node)\<rparr>) nds)"
  from Cons.prems have rest: "add_dependencies ?n2 a ds = Inr nds'"
    by (auto simp: Let_def split: if_splits)
  have a: "map_of ?n2 a \<noteq> None"
    using Cons.prems(2) by (auto simp: map_of_map_entry)
  from Cons.IH[OF rest a] Cons.prems(2) show ?case
    by (auto simp: deps_of_step set_set_add)
qed

lemma add_dependencies_dependents:
  "add_dependencies nds a ds = Inr nds' \<Longrightarrow>
     set (dependents_of nds' k) = set (dependents_of nds k) \<union> (if k \<in> set ds then {a} else {})"
proof (induction ds arbitrary: nds)
  case Nil
  then show ?case by simp
next
  case (Cons d ds)
  let ?n2 = "AList.map_entry d (\<lambda>node. node\<lparr>dependents := set_add a (dependents node)\<rparr>)
             (AList.map_entry a (\<lambda>node. node\<lparr>dependencies := set_add d (dependencies node)\<rparr>) nds)"
  from Cons.prems have d: "map_of nds d \<noteq> None" and rest: "add_dependencies ?n2 a ds = Inr nds'"
    by (auto simp: Let_def split: if_splits)
  from Cons.IH[OF rest] d show ?case
    by (auto simp: dependents_of_step set_set_add)
qed

lemma add_dependencies_distinct:
  "add_dependencies nds a ds = Inr nds' \<Longrightarrow>
     (\<forall>k. distinct (deps_of nds k) \<and> distinct (dependents_of nds k)) \<Longrightarrow>
     distinct (deps_of nds' k) \<and> distinct (dependents_of nds' k)"
proof (induction ds arbitrary: nds)
  case Nil
  then show ?case by simp
next
  case (Cons d ds)
  let ?n2 = "AList.map_entry d (\<lambda>node. node\<lparr>dependents := set_add a (dependents node)\<rparr>)
             (AList.map_entry a (\<lambda>node. node\<lparr>dependencies := set_add d (dependencies node)\<rparr>) nds)"
  from Cons.prems have rest: "add_dependencies ?n2 a ds = Inr nds'"
    by (auto simp: Let_def split: if_splits)
  have "\<forall>k. distinct (deps_of ?n2 k) \<and> distinct (dependents_of ?n2 k)"
    using Cons.prems(2) by (simp add: deps_of_step dependents_of_step distinct_set_add)
  from Cons.IH[OF rest this] show ?case .
qed

lemma add_dependencies_frame:
  "add_dependencies nds a ds = Inr nds' \<Longrightarrow>
     map_option frame (map_of nds' k) = map_option frame (map_of nds k)"
proof (induction ds arbitrary: nds)
  case Nil
  then show ?case by simp
next
  case (Cons d ds)
  let ?n2 = "AList.map_entry d (\<lambda>node. node\<lparr>dependents := set_add a (dependents node)\<rparr>)
             (AList.map_entry a (\<lambda>node. node\<lparr>dependencies := set_add d (dependencies node)\<rparr>) nds)"
  from Cons.prems have rest: "add_dependencies ?n2 a ds = Inr nds'"
    by (auto simp: Let_def split: if_splits)
  have "map_option frame (map_of ?n2 k) = map_option frame (map_of nds k)"
    by (auto simp: map_of_map_entry frame_def split: option.splits)
  with Cons.IH[OF rest] show ?case by simp
qed

lemma add_dependencies_error:
  "add_dependencies nds a ds = Inl e \<Longrightarrow>
     \<exists>d \<in> set ds. d \<notin> fst ` set nds \<and> e = UnknownDependency a d"
proof (induction ds arbitrary: nds)
  case Nil
  then show ?case by simp
next
  case (Cons d ds)
  show ?case
  proof (cases "map_of nds d = None")
    case True
    with Cons.prems show ?thesis by (auto simp: map_of_eq_None_keys)
  next
    case False
    let ?n2 = "AList.map_entry d (\<lambda>node. node\<lparr>dependents := set_add a (dependents node)\<rparr>)
             (AList.map_entry a (\<lambda>node. node\<lparr>dependencies := set_add d (dependencies node)\<rparr>) nds)"
    from False Cons.prems have "add_dependencies ?n2 a ds = Inl e"
      by (auto simp: Let_def split: if_splits)
    from Cons.IH[OF this] show ?thesis by (auto simp: dom_map_entry)
  qed
qed


lemma add_dependencies_total:
  "set ds \<subseteq> fst ` set nds \<Longrightarrow> \<exists>nds'. add_dependencies nds a ds = Inr nds'"
proof (cases "add_dependencies nds a ds")
  case (Inl e)
  assume "set ds \<subseteq> fst ` set nds"
  with add_dependencies_error[OF Inl] show ?thesis by auto
next
  case (Inr nds')
  then show ?thesis by simp
qed

text \<open>The second pass as a whole.\<close>

lemma build_relationships_keys:
  "build_relationships nds ss = Inr nds' \<Longrightarrow> map fst nds' = map fst nds"
proof (induction ss arbitrary: nds)
  case Nil
  then show ?case by simp
next
  case (Cons s ss)
  from Cons.prems obtain n1 where
    1: "add_dependencies nds (name s) (TestSuite.dependencies s) = Inr n1" and
    2: "build_relationships n1 ss = Inr nds'"
    by (auto split: option.splits sum.splits)
  from Cons.IH[OF 2] add_dependencies_keys[OF 1] show ?case by simp
qed

lemma build_relationships_frame:
  "build_relationships nds ss = Inr nds' \<Longrightarrow>
     map_option frame (map_of nds' k) = map_option frame (map_of nds k)"
proof (induction ss arbitrary: nds)
  case Nil
  then show ?case by simp
next
  case (Cons s ss)
  from Cons.prems obtain n1 where
    1: "add_dependencies nds (name s) (TestSuite.dependencies s) = Inr n1" and
    2: "build_relationships n1 ss = Inr nds'"
    by (auto split: option.splits sum.splits)
  from Cons.IH[OF 2] add_dependencies_frame[OF 1] show ?case by simp
qed

lemma build_relationships_deps:
  "build_relationships nds ss = Inr nds' \<Longrightarrow>
     set (deps_of nds' k) =
       set (deps_of nds k) \<union> {d. \<exists>s \<in> set ss. name s = k \<and> d \<in> set (TestSuite.dependencies s)}"
proof (induction ss arbitrary: nds)
  case Nil
  then show ?case by simp
next
  case (Cons s ss)
  from Cons.prems obtain n1 where
    0: "map_of nds (name s) \<noteq> None" and
    1: "add_dependencies nds (name s) (TestSuite.dependencies s) = Inr n1" and
    2: "build_relationships n1 ss = Inr nds'"
    by (auto split: option.splits sum.splits)
  from Cons.IH[OF 2] add_dependencies_deps[OF 1 0, of k] show ?case by auto
qed

lemma build_relationships_dependents:
  "build_relationships nds ss = Inr nds' \<Longrightarrow>
     set (dependents_of nds' k) =
       set (dependents_of nds k) \<union> {a. \<exists>s \<in> set ss. name s = a \<and> k \<in> set (TestSuite.dependencies s)}"
proof (induction ss arbitrary: nds)
  case Nil
  then show ?case by simp
next
  case (Cons s ss)
  from Cons.prems obtain n1 where
    1: "add_dependencies nds (name s) (TestSuite.dependencies s) = Inr n1" and
    2: "build_relationships n1 ss = Inr nds'"
    by (auto split: option.splits sum.splits)
  from Cons.IH[OF 2] add_dependencies_dependents[OF 1, of k] show ?case by auto
qed

lemma build_relationships_distinct:
  "build_relationships nds ss = Inr nds' \<Longrightarrow>
     (\<forall>k. distinct (deps_of nds k) \<and> distinct (dependents_of nds k)) \<Longrightarrow>
     distinct (deps_of nds' k) \<and> distinct (dependents_of nds' k)"
proof (induction ss arbitrary: nds)
  case Nil
  then show ?case by simp
next
  case (Cons s ss)
  from Cons.prems obtain n1 where
    1: "add_dependencies nds (name s) (TestSuite.dependencies s) = Inr n1" and
    2: "build_relationships n1 ss = Inr nds'"
    by (auto split: option.splits sum.splits)
  from add_dependencies_distinct[OF 1 Cons.prems(2)]
  have "\<forall>k. distinct (deps_of n1 k) \<and> distinct (dependents_of n1 k)" by blast
  from Cons.IH[OF 2 this] show ?case .
qed

lemma build_relationships_known:
  "build_relationships nds ss = Inr nds' \<Longrightarrow>
     \<forall>s \<in> set ss. set (TestSuite.dependencies s) \<subseteq> fst ` set nds"
proof (induction ss arbitrary: nds)
  case Nil
  then show ?case by simp
next
  case (Cons s ss)
  from Cons.prems obtain n1 where
    1: "add_dependencies nds (name s) (TestSuite.dependencies s) = Inr n1" and
    2: "build_relationships n1 ss = Inr nds'"
    by (auto split: option.splits sum.splits)
  from add_dependencies_keys[OF 1] have "fst ` set n1 = fst ` set nds"
    by (metis set_map)
  with Cons.IH[OF 2] add_dependencies_known[OF 1] show ?case by simp
qed

lemma build_relationships_error:
  "build_relationships nds ss = Inl e \<Longrightarrow> name ` set ss \<subseteq> fst ` set nds \<Longrightarrow>
     \<exists>s \<in> set ss. \<exists>d \<in> set (TestSuite.dependencies s).
        d \<notin> fst ` set nds \<and> e = UnknownDependency (name s) d"
proof (induction ss arbitrary: nds)
  case Nil
  then show ?case by simp
next
  case (Cons s ss)
  from Cons.prems(2) have 0: "map_of nds (name s) \<noteq> None"
    by (simp add: map_of_eq_None_keys)
  show ?case
  proof (cases "add_dependencies nds (name s) (TestSuite.dependencies s)")
    case (Inl e')
    with Cons.prems(1) 0 have "e' = e" by auto
    with add_dependencies_error[OF Inl] show ?thesis by auto
  next
    case (Inr n1)
    with Cons.prems(1) 0 have 2: "build_relationships n1 ss = Inl e" by auto
    from add_dependencies_keys[OF Inr] have k: "fst ` set n1 = fst ` set nds"
      by (metis set_map)
    with Cons.prems(2) have "name ` set ss \<subseteq> fst ` set n1" by simp
    from Cons.IH[OF 2 this] k show ?thesis by auto
  qed
qed

lemma deps_of_create_nodes: "deps_of (create_nodes [] ss) k = []"
  by (simp add: deps_of_def create_nodes_map_of new_node_def split: option.splits)

lemma dependents_of_create_nodes: "dependents_of (create_nodes [] ss) k = []"
  by (simp add: dependents_of_def create_nodes_map_of new_node_def split: option.splits)

lemma built_keys:
  assumes "build_relationships (create_nodes [] ss) ss = Inr nds"
  shows "distinct (map fst nds)" and "fst ` set nds = name ` set ss"
proof -
  from build_relationships_keys[OF assms] have k: "map fst nds = map fst (create_nodes [] ss)" .
  show "distinct (map fst nds)" unfolding k by (rule create_nodes_distinct) simp
  have "fst ` set nds = set (map fst nds)" by simp
  also have "\<dots> = fst ` set (create_nodes [] ss)" unfolding k by simp
  finally show "fst ` set nds = name ` set ss" by (simp add: create_nodes_keys)
qed

lemma built_deps:
  assumes "build_relationships (create_nodes [] ss) ss = Inr nds"
  shows "set (deps_of nds k) = {d. \<exists>s \<in> set ss. name s = k \<and> d \<in> set (TestSuite.dependencies s)}"
    and "set (dependents_of nds k) = {a. \<exists>s \<in> set ss. name s = a \<and> k \<in> set (TestSuite.dependencies s)}"
  using build_relationships_deps[OF assms, of k] build_relationships_dependents[OF assms, of k]
  by (simp_all add: deps_of_create_nodes dependents_of_create_nodes)

lemma built_well_formed:
  assumes "build_relationships (create_nodes [] ss) ss = Inr nds"
  shows "well_formed nds"
proof -
  have d: "distinct (deps_of nds k) \<and> distinct (dependents_of nds k)" for k
    by (rule build_relationships_distinct[OF assms])
       (simp add: deps_of_create_nodes dependents_of_create_nodes)
  from build_relationships_known[OF assms]
  have known: "\<forall>s \<in> set ss. set (TestSuite.dependencies s) \<subseteq> name ` set ss"
    by (simp add: create_nodes_keys)
  have s1: "set (deps_of nds k) \<subseteq> fst ` set nds" for k
    unfolding built_deps[OF assms] built_keys(2)[OF assms] using known by auto
  have s2: "set (dependents_of nds k) \<subseteq> fst ` set nds" for k
    unfolding built_deps[OF assms] built_keys(2)[OF assms] by auto
  have inv: "b \<in> set (deps_of nds a) \<longleftrightarrow> a \<in> set (dependents_of nds b)" for a b
    unfolding built_deps[OF assms] by auto
  show ?thesis
    unfolding well_formed_def using built_keys(1)[OF assms] d s1 s2 inv by blast
qed

lemma built_nodes:
  assumes "build_relationships (create_nodes [] ss) ss = Inr nds"
  shows "map_option frame (map_of nds k) =
           map_option (\<lambda>s. (s, False, None)) (find (\<lambda>s. name s = k) (rev ss))"
  unfolding build_relationships_frame[OF assms]
  by (simp add: create_nodes_map_of frame_def new_node_def split: option.splits)

lemma DAGBuilder_Inr:
  "DAGBuilder lim it plan = Inr nds \<longleftrightarrow>
     build_relationships (create_nodes [] (suites plan)) (suites plan) = Inr nds \<and>
     detect_cycles lim it nds = Inr ()"
  by (auto simp: DAGBuilder_def build_def split: sum.splits)

subsection \<open>The runtime operations keep the shape of the graph\<close>

lemma shape_keys: "shape nds' = shape nds \<Longrightarrow> map fst nds' = map fst nds"
proof -
  assume "shape nds' = shape nds"
  then have "map fst (shape nds') = map fst (shape nds)" by simp
  then show ?thesis by (simp add: shape_def comp_def)
qed

lemma map_of_shape:
  "map_of (shape nds) k =
     map_option (\<lambda>node. (suite node, dependencies node, dependents node)) (map_of nds k)"
  by (induction nds) (auto simp: shape_def)

lemma shape_deps_of: "shape nds' = shape nds \<Longrightarrow> deps_of nds' k = deps_of nds k"
proof -
  assume "shape nds' = shape nds"
  then have "map_of (shape nds') k = map_of (shape nds) k" by simp
  then show ?thesis by (auto simp: map_of_shape deps_of_def split: option.splits)
qed

lemma shape_dependents_of: "shape nds' = shape nds \<Longrightarrow> dependents_of nds' k = dependents_of nds k"
proof -
  assume "shape nds' = shape nds"
  then have "map_of (shape nds') k = map_of (shape nds) k" by simp
  then show ?thesis by (auto simp: map_of_shape dependents_of_def split: option.splits)
qed

lemma shape_well_formed: "shape nds' = shape nds \<Longrightarrow> well_formed nds' = well_formed nds"
proof -
  assume s: "shape nds' = shape nds"
  from shape_keys[OF s] have "fst ` set nds' = fst ` set nds" by (metis set_map)
  with shape_keys[OF s] show ?thesis
    by (simp add: well_formed_def shape_deps_of[OF s] shape_dependents_of[OF s])
qed

lemma shape_map_entry:
  "(\<And>node. suite (f node) = suite node \<and> dependencies (f node) = dependencies node \<and>
      dependents (f node) = dependents node) \<Longrightarrow>
   shape (AList.map_entry k f nds) = shape nds"
  by (induction nds) (auto simp: shape_def)

lemma shape_mark_executed: "shape (mark_executed nds nm st) = shape nds"
  by (simp add: mark_executed_def shape_map_entry)

lemma shape_process_group:
  "shape (fst (process_group it nds d q grp)) = shape nds"
proof (induction grp arbitrary: nds d q)
  case Nil
  then show ?case by simp
next
  case (Cons x grp)
  have e: "shape (AList.map_entry x (\<lambda>node. node\<lparr>executed := True\<rparr>) nds) = shape nds"
    by (simp add: shape_map_entry)
  show ?case
    by (auto simp: Let_def e Cons.IH split: option.splits sum.splits)
qed

lemma shape_schedule_loop:
  "shape (fst (schedule_loop it nds d q groups)) = shape nds"
proof (induction it nds d q groups rule: schedule_loop.induct)
  case (1 it nds in_degree queue groups)
  show ?case
  proof (cases "queue = []")
    case True
    then show ?thesis by simp
  next
    case False
    obtain n1 r where pg: "process_group it nds in_degree [] queue = (n1, r)"
      by (cases "process_group it nds in_degree [] queue")
    from shape_process_group[of it nds in_degree "[]" queue] pg
    have s1: "shape n1 = shape nds" by simp
    show ?thesis
    proof (cases r)
      case (Inl e)
      with False pg s1 show ?thesis by simp
    next
      case (Inr b)
      obtain d' q' where b: "b = (d', q')" by (cases b)
      from "1.IH"[OF False pg[symmetric] Inr b[symmetric]] s1 False pg Inr b
      show ?thesis by simp
    qed
  qed
qed

lemma shape_get_execution_order: "shape (fst (get_execution_order it nds)) = shape nds"
proof -
  obtain n1 r where s: "schedule_loop it nds (initial_in_degree nds)
                          (initial_queue (initial_in_degree nds)) [] = (n1, r)"
    by (cases "schedule_loop it nds (initial_in_degree nds) (initial_queue (initial_in_degree nds)) []")
  from shape_schedule_loop[of it nds "initial_in_degree nds" "initial_queue (initial_in_degree nds)" "[]"] s
  have "shape n1 = shape nds" by simp
  with s show ?thesis
    by (auto simp: get_execution_order_def Let_def split: sum.splits)
qed

lemma fst_get_parallel_groups:
  "fst (get_parallel_groups it nds mp) = fst (get_execution_order it nds)"
  by (auto simp: get_parallel_groups_def split: prod.splits sum.splits)

lemma fst_get_stats: "fst (get_stats it nds) = fst (get_execution_order it nds)"
  by (auto simp: get_stats_def Let_def split: prod.splits sum.splits)

lemma shape_perform: "shape (perform it nds c) = shape nds"
  by (cases c)
     (simp_all add: shape_mark_executed shape_get_execution_order fst_get_parallel_groups fst_get_stats)

lemma shape_after_calls: "shape (after_calls it nds calls) = shape nds"
  unfolding after_calls_def by (induction calls arbitrary: nds) (simp_all add: shape_perform)

lemma DAGBuilder_after_calls_well_formed:
  "DAGBuilder lim it plan = Inr g \<Longrightarrow> well_formed (after_calls it g calls)"
  by (auto simp: DAGBuilder_Inr shape_well_formed[OF shape_after_calls] intro: built_well_formed)

subsection \<open>Readiness\<close>

lemma iteration_order_set: "iteration_order it \<Longrightarrow> set (it xs) = set xs"
  unfolding iteration_order_def by (metis mset_eq_setD)

lemma iteration_order_distinct: "iteration_order it \<Longrightarrow> distinct (it xs) = distinct xs"
  unfolding iteration_order_def by (metis mset_eq_imp_distinct_iff)

lemma iteration_order_length: "iteration_order it \<Longrightarrow> length (it xs) = length xs"
  unfolding iteration_order_def by (metis size_mset)

lemma iteration_order_id: "iteration_order (\<lambda>xs. xs)"
  by (simp add: iteration_order_def)

lemma all_executed_known:
  "set ds \<subseteq> fst ` set nds \<Longrightarrow> all_executed nds ds = Inr (\<forall>d \<in> set ds. is_executed nds d)"
proof (induction ds)
  case Nil
  then show ?case by simp
next
  case (Cons d ds)
  from Cons.prems have "map_of nds d \<noteq> None" by (simp add: map_of_eq_None_keys)
  then obtain node where "map_of nds d = Some node" by auto
  with Cons show ?case by (auto simp: is_executed_def)
qed

lemma well_formed_node_deps:
  "well_formed nds \<Longrightarrow> map_of nds k = Some node \<Longrightarrow> set (dependencies node) \<subseteq> fst ` set nds"
  unfolding well_formed_def deps_of_def by (metis option.simps(5))

lemma is_ready_well_formed:
  assumes "iteration_order it" "well_formed nds" "map_of nds nm = Some node"
  shows "is_ready it nds nm = Inr (\<forall>d \<in> set (dependencies node). is_executed nds d)"
proof -
  from well_formed_node_deps[OF assms(2,3)] iteration_order_set[OF assms(1)]
  have "set (it (dependencies node)) \<subseteq> fst ` set nds" by simp
  from all_executed_known[OF this] assms(3) iteration_order_set[OF assms(1)]
  show ?thesis by (simp add: is_ready_def)
qed

lemma ready_items_well_formed:
  assumes "iteration_order it" "well_formed nds"
  shows "\<forall>kv \<in> set items. map_of nds (fst kv) = Some (snd kv) \<Longrightarrow>
         ready_items it nds items =
           Inr (map fst (filter (\<lambda>kv. \<not> executed (snd kv) \<and>
                                  (\<forall>d \<in> set (dependencies (snd kv)). is_executed nds d)) items))"
proof (induction items)
  case Nil
  then show ?case by simp
next
  case (Cons kv items)
  from Cons.prems have kv: "map_of nds (fst kv) = Some (snd kv)" by simp
  from Cons have IH: "ready_items it nds items =
           Inr (map fst (filter (\<lambda>kv. \<not> executed (snd kv) \<and>
                                  (\<forall>d \<in> set (dependencies (snd kv)). is_executed nds d)) items))"
    by simp
  show ?case
    by (simp add: IH is_ready_well_formed[OF assms kv])
qed

lemma get_ready_suites_well_formed:
  assumes "iteration_order it" "well_formed nds"
  shows "get_ready_suites it nds =
           Inr (map fst (filter (\<lambda>kv. \<not> executed (snd kv) \<and>
                                  (\<forall>d \<in> set (dependencies (snd kv)). is_executed nds d)) nds))"
proof -
  from assms(2) have "distinct (map fst nds)" by (simp add: well_formed_def)
  then have "\<forall>kv \<in> set nds. map_of nds (fst kv) = Some (snd kv)" by simp
  from ready_items_well_formed[OF assms this] show ?thesis by (simp add: get_ready_suites_def)
qed

subsection \<open>Cycle detection\<close>

lemma index_of_Some: "x \<in> set xs \<Longrightarrow> \<exists>i. index_of xs x = Some i \<and> i < length xs \<and> xs ! i = x"
proof (induction xs)
  case Nil
  then show ?case by simp
next
  case (Cons y ys)
  show ?case
  proof (cases "y = x")
    case True
    then show ?thesis by simp
  next
    case False
    with Cons obtain i where "index_of ys x = Some i" "i < length ys" "ys ! i = x" by auto
    with False show ?thesis by simp
  qed
qed

lemma index_of_SomeD: "index_of xs x = Some i \<Longrightarrow> i < length xs \<and> xs ! i = x"
proof (induction xs arbitrary: i)
  case Nil
  then show ?case by simp
next
  case (Cons y ys)
  then show ?case by (cases "y = x") auto
qed

lemma successively_drop: "successively P xs \<Longrightarrow> successively P (drop i xs)"
proof -
  assume "successively P xs"
  then have "successively P (take i xs @ drop i xs)" by simp
  then show ?thesis unfolding successively_append_iff by blast
qed

lemma successively_butlast: "successively P (xs @ [x]) \<Longrightarrow> successively P xs"
  by (simp add: successively_append_iff)

lemma successively_trancl:
  "successively P xs \<Longrightarrow> 2 \<le> length xs \<Longrightarrow> (hd xs, last xs) \<in> {(a, b). P a b}\<^sup>+"
proof (induction xs)
  case Nil
  then show ?case by simp
next
  case (Cons x xs)
  from Cons.prems obtain y ys where xs: "xs = y # ys" by (cases xs) auto
  from Cons.prems xs have xy: "P x y" and rest: "successively P xs" by simp_all
  show ?case
  proof (cases ys)
    case Nil
    with xs xy show ?thesis by auto
  next
    case (Cons z zs)
    with xs have "2 \<le> length xs" by simp
    from Cons.IH[OF rest this] xs have "(y, last xs) \<in> {(a, b). P a b}\<^sup>+" by simp
    moreover from xy have "(x, y) \<in> {(a, b). P a b}" by simp
    ultimately have "(x, last xs) \<in> {(a, b). P a b}\<^sup>+" by (rule trancl_into_trancl2[rotated])
    with xs show ?thesis by simp
  qed
qed

lemma closed_loop_cycle:
  "closed_loop (has_edge nds) cyc \<Longrightarrow> (hd cyc, hd cyc) \<in> (edges nds)\<^sup>+"
  unfolding closed_loop_def edges_def using successively_trancl[of "has_edge nds" cyc] by simp

lemma map_of_update_color:
  "map_of (AList.update k c col) k' = (if k' = k then Some c else map_of col k')"
  by (simp add: update_conv')

lemma black_closed_rtrancl:
  assumes closed: "\<forall>k d. map_of col k = Some BLACK \<longrightarrow> has_edge nds k d \<longrightarrow> map_of col d = Some BLACK"
  shows "(a, b) \<in> (edges nds)\<^sup>* \<Longrightarrow> map_of col a = Some BLACK \<Longrightarrow> map_of col b = Some BLACK"
proof (induction rule: rtrancl_induct)
  case base
  then show ?case .
next
  case (step y z)
  then show ?case using closed by (auto simp: edges_def)
qed

lemma dfs_inv_enter:
  assumes inv: "dfs_inv nds (col, path)" and white: "map_of col n = Some WHITE"
    and edge: "path = [] \<or> has_edge nds (last path) n"
  shows "dfs_inv nds (AList.update n GRAY col, path @ [n])"
proof -
  from inv white have notin: "n \<notin> set path" by (auto simp: dfs_inv_def)
  from white have "n \<in> dom (map_of col)" by auto
  with inv have dom: "dom (map_of (AList.update n GRAY col)) = fst ` set nds"
    by (auto simp: dfs_inv_def update_conv')
  have gray: "set (path @ [n]) = {k. map_of (AList.update n GRAY col) k = Some GRAY}"
    using inv by (auto simp: dfs_inv_def map_of_update_color)
  have chain: "successively (has_edge nds) (path @ [n])"
    using inv edge by (auto simp: dfs_inv_def successively_append_iff)
  have closed: "\<forall>k d. map_of (AList.update n GRAY col) k = Some BLACK \<longrightarrow> has_edge nds k d
                  \<longrightarrow> map_of (AList.update n GRAY col) d = Some BLACK"
  proof (intro allI impI)
    fix k d assume k: "map_of (AList.update n GRAY col) k = Some BLACK" and e: "has_edge nds k d"
    from k have k': "map_of col k = Some BLACK" by (auto simp: map_of_update_color split: if_splits)
    with inv e have "map_of col d = Some BLACK" by (auto simp: dfs_inv_def)
    with white show "map_of (AList.update n GRAY col) d = Some BLACK"
      by (auto simp: map_of_update_color)
  qed
  have acyc: "\<forall>k. map_of (AList.update n GRAY col) k = Some BLACK \<longrightarrow> (k, k) \<notin> (edges nds)\<^sup>+"
    using inv by (auto simp: dfs_inv_def map_of_update_color split: if_splits)
  from inv notin dom gray chain closed acyc show ?thesis
    unfolding dfs_inv_def fst_conv snd_conv by simp
qed

lemma dfs_inv_exit:
  assumes inv: "dfs_inv nds (col, path @ [n])"
    and deps: "\<forall>d. has_edge nds n d \<longrightarrow> map_of col d = Some BLACK"
  shows "dfs_inv nds (AList.update n BLACK col, path)"
proof -
  from inv have gray: "map_of col n = Some GRAY" and notin: "n \<notin> set path"
    and dist: "distinct path"
    by (auto simp: dfs_inv_def)
  from gray have "n \<in> dom (map_of col)" by auto
  with inv have dom: "dom (map_of (AList.update n BLACK col)) = fst ` set nds"
    by (auto simp: dfs_inv_def update_conv')
  from inv have g: "set (path @ [n]) = {k. map_of col k = Some GRAY}" by (simp add: dfs_inv_def)
  have grays: "set path = {k. map_of (AList.update n BLACK col) k = Some GRAY}"
    using g notin by (auto simp: map_of_update_color)
  have chain: "successively (has_edge nds) path"
    using inv by (auto simp: dfs_inv_def successively_append_iff)
  from inv have closed0: "\<forall>k d. map_of col k = Some BLACK \<longrightarrow> has_edge nds k d
                  \<longrightarrow> map_of col d = Some BLACK"
    by (simp add: dfs_inv_def)
  have closed: "\<forall>k d. map_of (AList.update n BLACK col) k = Some BLACK \<longrightarrow> has_edge nds k d
                  \<longrightarrow> map_of (AList.update n BLACK col) d = Some BLACK"
    using closed0 deps by (auto simp: map_of_update_color)
  have n_acyc: "(n, n) \<notin> (edges nds)\<^sup>+"
  proof
    assume "(n, n) \<in> (edges nds)\<^sup>+"
    then obtain d where nd: "(n, d) \<in> edges nds" and dn: "(d, n) \<in> (edges nds)\<^sup>*"
      by (meson tranclD)
    from nd deps have "map_of col d = Some BLACK" by (simp add: edges_def)
    from black_closed_rtrancl[OF closed0 dn this] gray show False by simp
  qed
  have acyc: "\<forall>k. map_of (AList.update n BLACK col) k = Some BLACK \<longrightarrow> (k, k) \<notin> (edges nds)\<^sup>+"
    using inv n_acyc by (auto simp: dfs_inv_def map_of_update_color split: if_splits)
  from dist dom grays chain closed acyc show ?thesis
    unfolding dfs_inv_def fst_conv snd_conv by simp
qed

lemma dfs_cycle_found:
  assumes inv: "dfs_inv nds (col, path)" and ne: "path \<noteq> []"
    and edge: "has_edge nds (last path) dep" and gray: "map_of col dep = Some GRAY"
  shows "\<exists>i. index_of path dep = Some i \<and> closed_loop (has_edge nds) (drop i path @ [dep])"
proof -
  from inv gray have "dep \<in> set path" by (auto simp: dfs_inv_def)
  from index_of_Some[OF this] obtain i where
    i: "index_of path dep = Some i" "i < length path" "path ! i = dep" by blast
  from inv have chain: "successively (has_edge nds) path" by (simp add: dfs_inv_def)
  from i have ne': "drop i path \<noteq> []" by simp
  have hd: "hd (drop i path @ [dep]) = dep"
    using i ne' by (simp add: hd_drop_conv_nth)
  have last: "last (drop i path) = last path" using i by simp
  have "successively (has_edge nds) (drop i path @ [dep])"
    using successively_drop[OF chain, of i] ne' edge last
    by (simp add: successively_append_iff)
  moreover have "2 \<le> length (drop i path @ [dep])" using i by simp
  ultimately have "closed_loop (has_edge nds) (drop i path @ [dep])"
    using hd by (simp add: closed_loop_def)
  with i show ?thesis by blast
qed

lemma dfs_post_trans:
  "dfs_post nds st X st1 \<Longrightarrow> dfs_post nds st1 Y st2 \<Longrightarrow> dfs_post nds st (X \<union> Y) st2"
  by (auto simp: dfs_post_def)

lemma dfs_post_black:
  "dfs_post nds st Y st' \<Longrightarrow> \<forall>k \<in> X. map_of (fst st) k = Some BLACK \<Longrightarrow>
     dfs_post nds st (X \<union> Y) st'"
  by (auto simp: dfs_post_def)

lemma path_shorter_than_keys:
  assumes inv: "dfs_inv nds (col, path)" and white: "map_of col n = Some WHITE"
  shows "length path < card (fst ` set nds)"
proof -
  from inv have d: "distinct path" and g: "set path = {k. map_of col k = Some GRAY}"
    and dom: "dom (map_of col) = fst ` set nds"
    by (simp_all add: dfs_inv_def)
  from g dom have sub: "set path \<subseteq> fst ` set nds" by auto
  from white dom have n: "n \<in> fst ` set nds" by auto
  from white g have "n \<notin> set path" by simp
  with sub n have "set path \<subset> fst ` set nds" by blast
  then have "card (set path) < card (fst ` set nds)" by (intro psubset_card_mono) simp_all
  with d show ?thesis by (simp add: distinct_card)
qed

lemma dfs_correct:
  "iteration_order it \<Longrightarrow> \<forall>k. set (deps_of nds k) \<subseteq> fst ` set nds \<Longrightarrow>
     dfs_inv nds (col, path) \<Longrightarrow> depth = length path \<Longrightarrow> map_of col n = Some WHITE \<Longrightarrow>
     path = [] \<or> has_edge nds (last path) n \<Longrightarrow>
     dfs_result_ok lim nds (col, path) {n} (dfs lim it nds depth (col, path) n)"
  "iteration_order it \<Longrightarrow> \<forall>k. set (deps_of nds k) \<subseteq> fst ` set nds \<Longrightarrow>
     dfs_inv nds (col, path) \<Longrightarrow> depth = length path \<Longrightarrow> path \<noteq> [] \<Longrightarrow>
     \<forall>d \<in> set ds. has_edge nds (last path) d \<Longrightarrow>
     dfs_result_ok lim nds (col, path) (set ds) (dfs_deps lim it nds depth (col, path) ds)"
proof (induct lim it nds depth "(col, path)" n and lim it nds depth "(col, path)" ds
       arbitrary: col path and col path rule: dfs_dfs_deps.induct)
  case (1 lim it nds depth col path n)
  note it = "1.prems"(1) and refs = "1.prems"(2) and inv = "1.prems"(3)
    and depth = "1.prems"(4) and white = "1.prems"(5) and edge = "1.prems"(6)
  show ?case
  proof (cases "lim \<le> depth")
    case True
    from path_shorter_than_keys[OF inv white] True depth
    have "lim < card (fst ` set nds)" by simp
    with True show ?thesis by (simp add: dfs_result_ok_def)
  next
    case room: False
    from white have "n \<in> dom (map_of col)" by auto
    with inv have "n \<in> fst ` set nds" by (simp add: dfs_inv_def)
    then have "map_of nds n \<noteq> None" by (simp add: map_of_eq_None_keys)
    then obtain node where node: "map_of nds n = Some node" by auto
    then have deps: "deps_of nds n = dependencies node" by (simp add: deps_of_def)
    let ?st1 = "(AList.update n GRAY col, path @ [n])"
    from dfs_inv_enter[OF inv white edge] have inv1: "dfs_inv nds ?st1" .
    have e1: "\<forall>d \<in> set (it (dependencies node)). has_edge nds (last (path @ [n])) d"
      using iteration_order_set[OF it] deps by (simp add: has_edge_def)
    have d1: "Suc depth = length (path @ [n])" using depth by simp
    from "1.hyps"[OF room node it refs inv1 d1 _ e1]
    have r: "dfs_result_ok lim nds ?st1 (set (it (dependencies node)))
               (dfs_deps lim it nds (Suc depth) ?st1 (it (dependencies node)))" by simp
    show ?thesis
    proof (cases "dfs_deps lim it nds (Suc depth) ?st1 (it (dependencies node))")
      case (Inl e)
      with r node room show ?thesis by (simp add: dfs_result_ok_def)
    next
      case (Inr st2)
      obtain c2 p2 where st2: "st2 = (c2, p2)" by (cases st2)
      from r Inr st2 have post: "dfs_post nds ?st1 (set (it (dependencies node))) (c2, p2)"
        by (simp add: dfs_result_ok_def)
      then have p2: "p2 = path @ [n]" and inv2: "dfs_inv nds (c2, path @ [n])"
        and black: "\<forall>d \<in> set (it (dependencies node)). map_of c2 d = Some BLACK"
        and mono: "\<forall>k. map_of (AList.update n GRAY col) k = Some BLACK \<longrightarrow> map_of c2 k = Some BLACK"
        by (auto simp: dfs_post_def)
      from black iteration_order_set[OF it] deps
      have "\<forall>d. has_edge nds n d \<longrightarrow> map_of c2 d = Some BLACK" by (simp add: has_edge_def)
      from dfs_inv_exit[OF inv2 this] have inv3: "dfs_inv nds (AList.update n BLACK c2, path)" .
      have res: "dfs lim it nds depth (col, path) n = Inr (AList.update n BLACK c2, path)"
        using node Inr st2 p2 room by simp
      have mono': "\<forall>k. map_of col k = Some BLACK \<longrightarrow> map_of (AList.update n BLACK c2) k = Some BLACK"
        using mono white by (auto simp: map_of_update_color)
      from inv3 mono' show ?thesis
        unfolding res dfs_result_ok_def dfs_post_def by (simp add: map_of_update_color)
    qed
  qed
next
  case (2 lim it nds depth col path)
  then show ?case by (simp add: dfs_result_ok_def dfs_post_def)
next
  case (3 lim it nds depth col path dep rest)
  note it = "3.prems"(1) and refs = "3.prems"(2) and inv = "3.prems"(3)
    and depth = "3.prems"(4) and ne = "3.prems"(5) and edge = "3.prems"(6)
  from edge have e_dep: "has_edge nds (last path) dep"
    and e_rest: "\<forall>d \<in> set rest. has_edge nds (last path) d" by simp_all
  from e_dep refs have "dep \<in> fst ` set nds" by (auto simp: has_edge_def)
  with inv have "dep \<in> dom (map_of col)" by (simp add: dfs_inv_def)
  then obtain c where c: "map_of col dep = Some c" by auto
  show ?case
  proof (cases c)
    case GRAY
    from dfs_cycle_found[OF inv ne e_dep] c GRAY obtain i where
      "index_of path dep = Some i" "closed_loop (has_edge nds) (drop i path @ [dep])" by auto
    with c GRAY show ?thesis by (simp add: dfs_result_ok_def)
  next
    case WHITE
    have ng: "c \<noteq> GRAY" using WHITE by simp
    from c WHITE have white: "map_of col dep = Some WHITE" by simp
    from "3.hyps"(1)[OF c ng WHITE it refs inv depth white] e_dep
    have r1: "dfs_result_ok lim nds (col, path) {dep} (dfs lim it nds depth (col, path) dep)" by simp
    show ?thesis
    proof (cases "dfs lim it nds depth (col, path) dep")
      case (Inl e)
      with r1 c WHITE show ?thesis by (simp add: dfs_result_ok_def)
    next
      case (Inr st1)
      obtain c1 p1 where st1: "st1 = (c1, p1)" by (cases st1)
      from r1 Inr st1 have post1: "dfs_post nds (col, path) {dep} (c1, p1)"
        by (simp add: dfs_result_ok_def)
      then have p1: "p1 = path" and inv1: "dfs_inv nds (c1, p1)" by (auto simp: dfs_post_def)
      from "3.hyps"(2)[OF c ng WHITE Inr[unfolded st1] it refs inv1] depth ne e_rest p1
      have r2: "dfs_result_ok lim nds (c1, p1) (set rest) (dfs_deps lim it nds depth (c1, p1) rest)" by simp
      have res: "dfs_deps lim it nds depth (col, path) (dep # rest) = dfs_deps lim it nds depth (c1, p1) rest"
        using c WHITE Inr st1 by simp
      show ?thesis
      proof (cases "dfs_deps lim it nds depth (c1, p1) rest")
        case (Inl e)
        with r2 show ?thesis unfolding res by (simp add: dfs_result_ok_def)
      next
        case (Inr st2)
        with r2 have "dfs_post nds (c1, p1) (set rest) st2" by (simp add: dfs_result_ok_def)
        from dfs_post_trans[OF post1 this] Inr show ?thesis
          unfolding res by (simp add: dfs_result_ok_def)
      qed
    qed
  next
    case BLACK
    have ng: "c \<noteq> GRAY" and nw: "c \<noteq> WHITE" using BLACK by simp_all
    from "3.hyps"(3)[OF c ng nw it refs inv depth ne e_rest]
    have r: "dfs_result_ok lim nds (col, path) (set rest) (dfs_deps lim it nds depth (col, path) rest)" .
    have res: "dfs_deps lim it nds depth (col, path) (dep # rest) = dfs_deps lim it nds depth (col, path) rest"
      using c BLACK by simp
    show ?thesis
    proof (cases "dfs_deps lim it nds depth (col, path) rest")
      case (Inl e)
      with r show ?thesis unfolding res by (simp add: dfs_result_ok_def)
    next
      case (Inr st')
      with r have "dfs_post nds (col, path) (set rest) st'" by (simp add: dfs_result_ok_def)
      from dfs_post_black[OF this, of "{dep}"] c BLACK Inr show ?thesis
        unfolding res by (simp add: dfs_result_ok_def)
    qed
  qed
qed

lemma visit_all_correct:
  "iteration_order it \<Longrightarrow> \<forall>k. set (deps_of nds k) \<subseteq> fst ` set nds \<Longrightarrow>
     dfs_inv nds st \<Longrightarrow> snd st = [] \<Longrightarrow> set names \<subseteq> fst ` set nds \<Longrightarrow>
     dfs_result_ok lim nds st (set names) (visit_all lim it nds st names)"
proof (induction names arbitrary: st)
  case Nil
  then show ?case by (simp add: dfs_result_ok_def dfs_post_def)
next
  case (Cons nm names)
  note it = Cons.prems(1) and refs = Cons.prems(2) and inv = Cons.prems(3) and emp = Cons.prems(4)
  obtain col path where st: "st = (col, path)" by (cases st)
  with emp have path: "path = []" by simp
  from Cons.prems(5) have nm: "nm \<in> fst ` set nds" and names: "set names \<subseteq> fst ` set nds"
    by simp_all
  from nm inv st have "nm \<in> dom (map_of col)" by (simp add: dfs_inv_def)
  then obtain c where c: "map_of col nm = Some c" by auto
  show ?case
  proof (cases "c = WHITE")
    case True
    from dfs_correct(1)[OF it refs inv[unfolded st], of 0 nm lim] c True path
    have r1: "dfs_result_ok lim nds (col, path) {nm} (dfs lim it nds 0 (col, path) nm)" by simp
    show ?thesis
    proof (cases "dfs lim it nds 0 (col, path) nm")
      case (Inl e)
      with r1 c True st show ?thesis by (simp add: dfs_result_ok_def)
    next
      case (Inr st1)
      with r1 have post1: "dfs_post nds (col, path) {nm} st1" by (simp add: dfs_result_ok_def)
      then have "dfs_inv nds st1" "snd st1 = []" using path by (auto simp: dfs_post_def)
      from Cons.IH[OF it refs this names]
      have r2: "dfs_result_ok lim nds st1 (set names) (visit_all lim it nds st1 names)" .
      have res: "visit_all lim it nds st (nm # names) = visit_all lim it nds st1 names"
        using c True Inr st by simp
      show ?thesis
      proof (cases "visit_all lim it nds st1 names")
        case (Inl e)
        with r2 show ?thesis unfolding res by (simp add: dfs_result_ok_def)
      next
        case (Inr st2)
        with r2 have "dfs_post nds st1 (set names) st2" by (simp add: dfs_result_ok_def)
        from dfs_post_trans[OF post1 this] Inr st show ?thesis
          unfolding res by (simp add: dfs_result_ok_def)
      qed
    qed
  next
    case False
    from inv st path have "map_of col nm \<noteq> Some GRAY" by (auto simp: dfs_inv_def)
    with c False have black: "map_of col nm = Some BLACK" by (cases c) auto
    from Cons.IH[OF it refs inv emp names]
    have r: "dfs_result_ok lim nds st (set names) (visit_all lim it nds st names)" .
    have res: "visit_all lim it nds st (nm # names) = visit_all lim it nds st names"
      using c False st by simp
    show ?thesis
    proof (cases "visit_all lim it nds st names")
      case (Inl e)
      with r show ?thesis unfolding res by (simp add: dfs_result_ok_def)
    next
      case (Inr st')
      with r have "dfs_post nds st (set names) st'" by (simp add: dfs_result_ok_def)
      from dfs_post_black[OF this, of "{nm}"] black st Inr show ?thesis
        unfolding res by (simp add: dfs_result_ok_def)
    qed
  qed
qed

lemma map_of_initial_colors:
  "map_of (initial_colors nds) k = (if k \<in> fst ` set nds then Some WHITE else None)"
  by (induction nds) (auto simp: initial_colors_def)

lemma dfs_inv_initial: "dfs_inv nds (initial_colors nds, [])"
  by (auto simp: dfs_inv_def map_of_initial_colors dom_def split: if_splits)

lemma detect_cycles_correct:
  assumes it: "iteration_order it" and refs: "\<forall>k. set (deps_of nds k) \<subseteq> fst ` set nds"
  shows "(detect_cycles lim it nds = Inr () \<and> (\<forall>k. (k, k) \<notin> (edges nds)\<^sup>+)) \<or>
         (\<exists>cyc. detect_cycles lim it nds = Inl (CircularDependency cyc) \<and> closed_loop (has_edge nds) cyc) \<or>
         (detect_cycles lim it nds = Inl RecursionError \<and> lim < card (fst ` set nds))"
proof -
  have "set (map fst nds) \<subseteq> fst ` set nds" by simp
  from visit_all_correct[OF it refs dfs_inv_initial _ this]
  have r: "dfs_result_ok lim nds (initial_colors nds, []) (set (map fst nds))
             (visit_all lim it nds (initial_colors nds, []) (map fst nds))" by simp
  show ?thesis
  proof (cases "visit_all lim it nds (initial_colors nds, []) (map fst nds)")
    case (Inl e)
    with r show ?thesis by (auto simp: dfs_result_ok_def detect_cycles_def)
  next
    case (Inr st')
    with r have post: "dfs_post nds (initial_colors nds, []) (set (map fst nds)) st'"
      by (simp add: dfs_result_ok_def)
    then have inv: "dfs_inv nds st'" and black: "\<forall>k \<in> fst ` set nds. map_of (fst st') k = Some BLACK"
      by (auto simp: dfs_post_def)
    have "(k, k) \<notin> (edges nds)\<^sup>+" for k
    proof
      assume cyc: "(k, k) \<in> (edges nds)\<^sup>+"
      then obtain d where "(k, d) \<in> edges nds" by (meson tranclD)
      then have "deps_of nds k \<noteq> []" by (auto simp: edges_def has_edge_def)
      then have "map_of nds k \<noteq> None" by (auto simp: deps_of_def split: option.splits)
      then have "k \<in> fst ` set nds" by (simp add: map_of_eq_None_keys)
      with black have "map_of (fst st') k = Some BLACK" by blast
      with inv cyc show False by (auto simp: dfs_inv_def)
    qed
    with Inr show ?thesis by (simp add: detect_cycles_def)
  qed
qed

lemma build_relationships_total:
  assumes "valid_references plan"
  shows "\<exists>nds. build_relationships (create_nodes [] (suites plan)) (suites plan) = Inr nds"
proof (cases "build_relationships (create_nodes [] (suites plan)) (suites plan)")
  case (Inl e)
  have "name ` set (suites plan) \<subseteq> fst ` set (create_nodes [] (suites plan))"
    by (simp add: create_nodes_keys)
  from build_relationships_error[OF Inl this] assms show ?thesis
    by (auto simp: valid_references_def create_nodes_keys)
next
  case (Inr nds)
  then show ?thesis by simp
qed

lemma built_has_edge:
  assumes "build_relationships (create_nodes [] (suites plan)) (suites plan) = Inr nds"
  shows "has_edge nds = depends_on plan"
  by (intro ext) (auto simp: has_edge_def depends_on_def built_deps(1)[OF assms])

lemma built_edges:
  assumes "build_relationships (create_nodes [] (suites plan)) (suites plan) = Inr nds"
  shows "edges nds = dependency_relation plan"
  by (simp add: edges_def dependency_relation_def built_has_edge[OF assms])

lemma well_formed_refs: "well_formed nds \<Longrightarrow> \<forall>k. set (deps_of nds k) \<subseteq> fst ` set nds"
  by (simp add: well_formed_def)

text \<open>The outcomes of the constructor.\<close>

lemma DAGBuilder_cases:
  assumes it: "iteration_order it"
  shows "(\<exists>nds. DAGBuilder lim it plan = Inr nds \<and> valid_references plan \<and>
                (\<forall>k. (k, k) \<notin> (dependency_relation plan)\<^sup>+)) \<or>
         (\<exists>cyc. DAGBuilder lim it plan = Inl (CircularDependency cyc) \<and> valid_references plan \<and>
                closed_loop (depends_on plan) cyc) \<or>
         (\<exists>s \<in> set (suites plan). \<exists>d \<in> set (TestSuite.dependencies s).
            DAGBuilder lim it plan = Inl (UnknownDependency (name s) d) \<and>
            d \<notin> name ` set (suites plan)) \<or>
         (DAGBuilder lim it plan = Inl RecursionError \<and> valid_references plan \<and>
            lim < card (name ` set (suites plan)))"
proof (cases "build_relationships (create_nodes [] (suites plan)) (suites plan)")
  case (Inl e)
  have "name ` set (suites plan) \<subseteq> fst ` set (create_nodes [] (suites plan))"
    by (simp add: create_nodes_keys)
  from build_relationships_error[OF Inl this] Inl show ?thesis
    by (auto simp: create_nodes_keys DAGBuilder_def build_def)
next
  case (Inr nds)
  from build_relationships_known[OF Inr] have valid: "valid_references plan"
    by (auto simp: valid_references_def create_nodes_keys)
  from well_formed_refs[OF built_well_formed[OF Inr]]
  have refs: "\<forall>k. set (deps_of nds k) \<subseteq> fst ` set nds" .
  from detect_cycles_correct[OF it refs, of lim]
  consider (ok) "detect_cycles lim it nds = Inr ()" "\<forall>k. (k, k) \<notin> (edges nds)\<^sup>+"
    | (cyc) cyc where "detect_cycles lim it nds = Inl (CircularDependency cyc)"
        "closed_loop (has_edge nds) cyc"
    | (deep) "detect_cycles lim it nds = Inl RecursionError" "lim < card (fst ` set nds)"
    by blast
  then show ?thesis
  proof cases
    case ok
    with Inr valid show ?thesis
      by (auto simp: DAGBuilder_def build_def built_edges[OF Inr])
  next
    case cyc
    with Inr valid show ?thesis
      by (auto simp: DAGBuilder_def build_def built_has_edge[OF Inr])
  next
    case deep
    from deep(2) have "lim < card (name ` set (suites plan))"
      by (simp only: built_keys(2)[OF Inr])
    with deep(1) Inr valid show ?thesis
      by (simp add: DAGBuilder_def build_def)
  qed
qed


subsection \<open>The level schedule\<close>

lemma update_dependents_spec:
  "distinct ds \<Longrightarrow> set ds \<subseteq> fst ` set d \<Longrightarrow>
     \<exists>d'. update_dependents d q ds = Inr (d', q @ filter (\<lambda>k. map_of d k = Some 1) ds) \<and>
          map fst d' = map fst d \<and>
          (\<forall>k. map_of d' k = (if k \<in> set ds then map_option (\<lambda>v. v - 1) (map_of d k)
                               else map_of d k))"
proof (induction ds arbitrary: d q)
  case Nil
  then show ?case by simp
next
  case (Cons x ds)
  from Cons.prems have x: "x \<notin> set ds" and dist: "distinct ds"
    and xin: "x \<in> fst ` set d" and sub: "set ds \<subseteq> fst ` set d" by simp_all
  from xin have "map_of d x \<noteq> None" by (simp add: map_of_eq_None_keys)
  then obtain v where v: "map_of d x = Some v" by auto
  let ?d1 = "AList.update x (v - 1) d"
  let ?q1 = "if v - 1 = 0 then q @ [x] else q"
  have keys1: "map fst ?d1 = map fst d" using v by (simp add: map_fst_update_present)
  then have "fst ` set ?d1 = fst ` set d" by (metis set_map)
  with sub have sub1: "set ds \<subseteq> fst ` set ?d1" by simp
  from Cons.IH[OF dist sub1, of ?q1] obtain d' where
    r: "update_dependents ?d1 ?q1 ds = Inr (d', ?q1 @ filter (\<lambda>k. map_of ?d1 k = Some 1) ds)" and
    k: "map fst d' = map fst ?d1" and
    m: "\<forall>k. map_of d' k = (if k \<in> set ds then map_option (\<lambda>v. v - 1) (map_of ?d1 k)
                               else map_of ?d1 k)"
    by blast
  have f: "filter (\<lambda>k. map_of ?d1 k = Some 1) ds = filter (\<lambda>k. map_of d k = Some 1) ds"
    using x by (intro filter_cong) (auto simp: update_conv')
  have q: "?q1 @ filter (\<lambda>k. map_of d k = Some 1) ds
             = q @ filter (\<lambda>k. map_of d k = Some 1) (x # ds)"
    using v by auto
  have res: "update_dependents d q (x # ds)
               = Inr (d', q @ filter (\<lambda>k. map_of d k = Some 1) (x # ds))"
    using v r unfolding f q by simp
  have m': "\<forall>k. map_of d' k = (if k \<in> set (x # ds) then map_option (\<lambda>v. v - 1) (map_of d k)
                               else map_of d k)"
    using m x v by (auto simp: update_conv')
  from res k keys1 m' show ?case by auto
qed

lemma update_dependents_queue:
  assumes "distinct ds" "set ds \<subseteq> fst ` set d"
    and r: "update_dependents d q ds = Inr (d', q')"
  shows "set q' = set q \<union> crossed d d'" and "settled d q \<Longrightarrow> settled d' q'"
proof -
  from update_dependents_spec[OF assms(1,2), of q] r have
    q': "q' = q @ filter (\<lambda>k. map_of d k = Some 1) ds" and
    m: "\<forall>k. map_of d' k = (if k \<in> set ds then map_option (\<lambda>v. v - 1) (map_of d k)
                               else map_of d k)"
    by auto
  have c: "crossed d d' = {k \<in> set ds. map_of d k = Some 1}"
    unfolding crossed_def using m by (auto split: if_splits)
  show "set q' = set q \<union> crossed d d'" unfolding c q' by auto
  show "settled d' q'" if "settled d q"
  proof -
    from that have dq: "distinct q" and le: "\<forall>k \<in> set q. \<exists>v. map_of d k = Some v \<and> v \<le> 0"
      by (auto simp: settled_def)
    have "distinct q'" unfolding q' using dq le assms(1) by auto
    moreover have "\<forall>k \<in> set q'. \<exists>v. map_of d' k = Some v \<and> v \<le> 0"
    proof
      fix k assume "k \<in> set q'"
      then consider "k \<in> set q" | "k \<in> set ds" "map_of d k = Some 1" unfolding q' by auto
      then show "\<exists>v. map_of d' k = Some v \<and> v \<le> 0"
      proof cases
        case 1
        with le obtain v where "map_of d k = Some v" "v \<le> 0" by blast
        with m show ?thesis by (cases "k \<in> set ds") auto
      next
        case 2
        with m show ?thesis by auto
      qed
    qed
    ultimately show ?thesis by (simp add: settled_def)
  qed
qed


lemma crossed_trans:
  assumes "\<forall>k. map_of d1 k = map_option (\<lambda>v. v - int (a k)) (map_of d k)"
    and "\<forall>k. map_of d2 k = map_option (\<lambda>v. v - int (b k)) (map_of d1 k)"
  shows "crossed d d1 \<union> crossed d1 d2 = crossed d d2"
proof -
  have "k \<in> crossed d d1 \<union> crossed d1 d2 \<longleftrightarrow> k \<in> crossed d d2" for k
  proof (cases "map_of d k")
    case None
    with assms show ?thesis by (simp add: crossed_def)
  next
    case (Some v)
    with assms have "map_of d1 k = Some (v - int (a k))"
      "map_of d2 k = Some (v - int (a k) - int (b k))" by simp_all
    with Some show ?thesis by (auto simp: crossed_def)
  qed
  then show ?thesis by blast
qed

lemma is_executed_map_entry:
  "is_executed (AList.map_entry x (\<lambda>node. node\<lparr>executed := True\<rparr>) nds) k
     = (if k = x then map_of nds x \<noteq> None else is_executed nds k)"
  by (auto simp: is_executed_def map_of_map_entry split: option.splits)

lemma process_group_spec:
  "iteration_order it \<Longrightarrow> set grp \<subseteq> fst ` set nds \<Longrightarrow> map fst d = map fst nds \<Longrightarrow>
   \<forall>g. distinct (dependents_of nds g) \<and> set (dependents_of nds g) \<subseteq> fst ` set nds \<Longrightarrow>
     \<exists>nds' d' q'. process_group it nds d q grp = (nds', Inr (d', q')) \<and>
        shape nds' = shape nds \<and> map fst d' = map fst d \<and>
        (\<forall>k. map_of d' k =
               map_option (\<lambda>v. v - int (length (filter (\<lambda>g. k \<in> set (dependents_of nds g)) grp)))
                 (map_of d k)) \<and>
        (\<forall>k. is_executed nds' k \<longleftrightarrow> is_executed nds k \<or> k \<in> set grp) \<and>
        set q' = set q \<union> crossed d d' \<and> (settled d q \<longrightarrow> settled d' q')"
proof (induction grp arbitrary: nds d q)
  case Nil
  then show ?case by (auto simp: crossed_def option.map_ident)
next
  case (Cons x grp)
  note it = Cons.prems(1) and keys = Cons.prems(3) and deps = Cons.prems(4)
  from Cons.prems(2) have xin: "x \<in> fst ` set nds" and sub: "set grp \<subseteq> fst ` set nds" by simp_all
  from xin have "map_of nds x \<noteq> None" by (simp add: map_of_eq_None_keys)
  then obtain node where node: "map_of nds x = Some node" by auto
  then have dn: "dependents node = dependents_of nds x" by (simp add: dependents_of_def)
  let ?nds1 = "AList.map_entry x (\<lambda>node. node\<lparr>executed := True\<rparr>) nds"
  let ?ds = "it (dependents node)"
  have sh1: "shape ?nds1 = shape nds" by (simp add: shape_map_entry)
  have k1: "fst ` set ?nds1 = fst ` set nds" by (simp add: dom_map_entry)
  have kd: "fst ` set d = fst ` set nds" using keys by (metis set_map)
  have ds: "distinct ?ds" "set ?ds = set (dependents_of nds x)"
    using deps iteration_order_distinct[OF it] iteration_order_set[OF it] dn by simp_all
  with deps kd have dsub: "set ?ds \<subseteq> fst ` set d" by simp
  from update_dependents_spec[OF ds(1) dsub, of q] obtain d1 q1 where
    u: "update_dependents d q ?ds = Inr (d1, q1)" and
    ku: "map fst d1 = map fst d" and
    mu: "\<forall>k. map_of d1 k = (if k \<in> set ?ds then map_option (\<lambda>v. v - 1) (map_of d k)
                               else map_of d k)"
    by blast
  from update_dependents_queue[OF ds(1) dsub u]
  have qu: "set q1 = set q \<union> crossed d d1" and su: "settled d q \<Longrightarrow> settled d1 q1" by simp_all
  have deps1: "\<forall>g. distinct (dependents_of ?nds1 g) \<and> set (dependents_of ?nds1 g) \<subseteq> fst ` set ?nds1"
    using deps by (simp add: shape_dependents_of[OF sh1] k1)
  have keys1: "map fst d1 = map fst ?nds1" using ku keys by (simp add: map_fst_map_entry)
  from Cons.IH[OF it _ keys1 deps1, of q1] sub k1 obtain nds' d' q' where
    r: "process_group it ?nds1 d1 q1 grp = (nds', Inr (d', q'))" and
    sh: "shape nds' = shape ?nds1" and kr: "map fst d' = map fst d1" and
    mr: "\<forall>k. map_of d' k =
               map_option (\<lambda>v. v - int (length (filter (\<lambda>g. k \<in> set (dependents_of ?nds1 g)) grp)))
                 (map_of d1 k)" and
    er: "\<forall>k. is_executed nds' k \<longleftrightarrow> is_executed ?nds1 k \<or> k \<in> set grp" and
    qr: "set q' = set q1 \<union> crossed d1 d'" and sr: "settled d1 q1 \<longrightarrow> settled d' q'"
    by auto
  have res: "process_group it nds d q (x # grp) = (nds', Inr (d', q'))"
    using node u r by (simp add: Let_def)
  have mu': "\<forall>k. map_of d1 k = map_option (\<lambda>v. v - int (if k \<in> set (dependents_of nds x) then 1 else 0))
                                  (map_of d k)"
    using mu ds(2) by (auto simp: option.map_ident)
  have mr': "\<forall>k. map_of d' k =
               map_option (\<lambda>v. v - int (length (filter (\<lambda>g. k \<in> set (dependents_of nds g)) grp)))
                 (map_of d1 k)"
    using mr by (simp add: shape_dependents_of[OF sh1])
  have m: "\<forall>k. map_of d' k =
               map_option (\<lambda>v. v - int (length (filter (\<lambda>g. k \<in> set (dependents_of nds g)) (x # grp))))
                 (map_of d k)"
  proof
    fix k
    show "map_of d' k =
               map_option (\<lambda>v. v - int (length (filter (\<lambda>g. k \<in> set (dependents_of nds g)) (x # grp))))
                 (map_of d k)"
      using mu'[rule_format, of k] mr'[rule_format, of k]
      by (cases "map_of d k") auto
  qed
  have e: "\<forall>k. is_executed nds' k \<longleftrightarrow> is_executed nds k \<or> k \<in> set (x # grp)"
    using er node by (auto simp: is_executed_map_entry)
  have q: "set q' = set q \<union> crossed d d'"
    using qu qr crossed_trans[OF mu' mr'] by auto
  have s: "settled d q \<longrightarrow> settled d' q'" using su sr by blast
  from res sh sh1 kr ku m e q s show ?case by auto
qed

lemma levels_ok_closed:
  assumes "levels_ok (has_edge nds) groups" "s \<in> set (concat groups)"
  shows "set (deps_of nds s) \<subseteq> set (concat groups)"
proof
  fix d assume d: "d \<in> set (deps_of nds s)"
  from assms(2) obtain g where "g \<in> set groups" "s \<in> set g" by auto
  then obtain i where i: "i < length groups" "s \<in> set (groups ! i)"
    by (auto simp: in_set_conv_nth)
  from assms(1) i d have "\<exists>j < i. d \<in> set (groups ! j)"
    unfolding levels_ok_def has_edge_def by blast
  then obtain j where j: "j < i" "d \<in> set (groups ! j)" by blast
  with i have "groups ! j \<in> set groups" by simp
  with j show "d \<in> set (concat groups)" by auto
qed

lemma levels_ok_snoc:
  assumes "levels_ok (has_edge nds) groups"
    and "\<forall>s \<in> set q. set (deps_of nds s) \<subseteq> set (concat groups)"
  shows "levels_ok (has_edge nds) (groups @ [q])"
proof -
  have "\<exists>j < i. d \<in> set ((groups @ [q]) ! j)"
    if i: "i < length (groups @ [q])" and s: "s \<in> set ((groups @ [q]) ! i)"
      and e: "has_edge nds s d" for i s d
  proof (cases "i < length groups")
    case True
    with s have "s \<in> set (groups ! i)" by (simp add: nth_append)
    with assms(1) True e have "\<exists>j < i. d \<in> set (groups ! j)"
      unfolding levels_ok_def by blast
    then obtain j where j: "j < i" "d \<in> set (groups ! j)" by blast
    with True have "(groups @ [q]) ! j = groups ! j" by (simp add: nth_append)
    with j show ?thesis by metis
  next
    case False
    with i have il: "i = length groups" by simp
    with s have "s \<in> set q" by simp
    with assms(2) e have "d \<in> set (concat groups)" unfolding has_edge_def by blast
    then obtain g where "g \<in> set groups" "d \<in> set g" by auto
    then obtain j where j: "j < length groups" "d \<in> set (groups ! j)"
      by (auto simp: in_set_conv_nth)
    then have "(groups @ [q]) ! j = groups ! j" by (simp add: nth_append)
    with j il show ?thesis by metis
  qed
  then show ?thesis unfolding levels_ok_def by blast
qed

lemma length_filter_card:
  assumes "distinct xs"
  shows "length (filter P xs) = card {x \<in> set xs. P x}"
proof -
  have "card (set (filter P xs)) = length (filter P xs)"
    by (rule distinct_card) (simp add: assms)
  then show ?thesis by simp
qed

lemma kahn_invD:
  assumes "kahn_inv nds d queue groups"
  shows "map fst d = map fst nds"
    and "distinct (concat groups @ queue)"
    and "set (concat groups @ queue) \<subseteq> fst ` set nds"
    and "\<forall>k \<in> fst ` set nds.
           map_of d k = Some (int (card (set (deps_of nds k) - set (concat groups))))"
    and "set queue = {k \<in> fst ` set nds. k \<notin> set (concat groups) \<and>
                    set (deps_of nds k) \<subseteq> set (concat groups)}"
    and "levels_ok (has_edge nds) groups"
    and "\<forall>k \<in> set (concat groups). is_executed nds k"
    and "[] \<notin> set groups"
proof -
  note a = assms[unfolded kahn_inv_def]
  show "map fst d = map fst nds" by (rule a[THEN conjunct1])
  note b = a[THEN conjunct2]
  show "distinct (concat groups @ queue)" by (rule b[THEN conjunct1])
  note c = b[THEN conjunct2]
  show "set (concat groups @ queue) \<subseteq> fst ` set nds" by (rule c[THEN conjunct1])
  note e = c[THEN conjunct2]
  show "\<forall>k \<in> fst ` set nds.
           map_of d k = Some (int (card (set (deps_of nds k) - set (concat groups))))"
    by (rule e[THEN conjunct1])
  note f = e[THEN conjunct2]
  show "set queue = {k \<in> fst ` set nds. k \<notin> set (concat groups) \<and>
                    set (deps_of nds k) \<subseteq> set (concat groups)}"
    by (rule f[THEN conjunct1])
  note g = f[THEN conjunct2]
  show "levels_ok (has_edge nds) groups" by (rule g[THEN conjunct1])
  note h = g[THEN conjunct2]
  show "\<forall>k \<in> set (concat groups). is_executed nds k" by (rule h[THEN conjunct1])
  show "[] \<notin> set groups" by (rule h[THEN conjunct2])
qed

lemma kahn_inv_step:
  assumes wf: "well_formed nds" and inv: "kahn_inv nds d queue groups" and ne: "queue \<noteq> []"
    and sh: "shape nds' = shape nds" and kd: "map fst d' = map fst d"
    and m: "\<forall>k. map_of d' k =
               map_option (\<lambda>v. v - int (length (filter (\<lambda>g. k \<in> set (dependents_of nds g)) queue)))
                 (map_of d k)"
    and ex: "\<forall>k. is_executed nds' k \<longleftrightarrow> is_executed nds k \<or> k \<in> set queue"
    and q': "set queue' = crossed d d'" and dq': "distinct queue'"
  shows "kahn_inv nds' d' queue' (groups @ [queue])"
proof -
  let ?K = "fst ` set nds"
  let ?done = "set (concat groups)"
  let ?D = "\<lambda>k. set (deps_of nds k)"
  from shape_keys[OF sh] have keys: "map fst nds' = map fst nds" .
  then have K': "fst ` set nds' = ?K" by (metis set_map)
  have D': "deps_of nds' = deps_of nds" by (intro ext shape_deps_of[OF sh])
  have E': "has_edge nds' = has_edge nds" by (intro ext) (simp add: has_edge_def D')
  note i1 = kahn_invD(1)[OF inv] and i2 = kahn_invD(2,3)[OF inv] and i3 = kahn_invD(4)[OF inv]
    and i4 = kahn_invD(5)[OF inv] and i5 = kahn_invD(6)[OF inv] and i6 = kahn_invD(7)[OF inv]
    and i7 = kahn_invD(8)[OF inv]
  from i2 have dq: "distinct queue" and disj: "?done \<inter> set queue = {}" by auto
  from wf have inverse: "\<And>a b. b \<in> ?D a \<longleftrightarrow> a \<in> set (dependents_of nds b)"
    and Dsub: "\<And>k. ?D k \<subseteq> ?K"
    by (auto simp: well_formed_def)
  have cnt: "length (filter (\<lambda>g. k \<in> set (dependents_of nds g)) queue) = card (?D k \<inter> set queue)" for k
  proof -
    have "{x \<in> set queue. k \<in> set (dependents_of nds x)} = ?D k \<inter> set queue"
      using inverse by auto
    with length_filter_card[OF dq, of "\<lambda>g. k \<in> set (dependents_of nds g)"] show ?thesis by simp
  qed
  have deg': "map_of d' k = Some (int (card (?D k - (?done \<union> set queue))))" if "k \<in> ?K" for k
  proof -
    have sub: "?D k \<inter> set queue \<subseteq> ?D k - ?done" using disj by auto
    have "card ((?D k - ?done) - (?D k \<inter> set queue)) = card (?D k - ?done) - card (?D k \<inter> set queue)"
      by (rule card_Diff_subset) (use sub in auto)
    moreover have "(?D k - ?done) - (?D k \<inter> set queue) = ?D k - (?done \<union> set queue)" by auto
    moreover have "card (?D k \<inter> set queue) \<le> card (?D k - ?done)"
      by (rule card_mono) (use sub in auto)
    ultimately have "int (card (?D k - ?done)) - int (card (?D k \<inter> set queue))
                       = int (card (?D k - (?done \<union> set queue)))"
      by simp
    moreover from i3 that have "map_of d k = Some (int (card (?D k - ?done)))" by blast
    moreover from m have "map_of d' k =
               map_option (\<lambda>v. v - int (length (filter (\<lambda>g. k \<in> set (dependents_of nds g)) queue)))
                 (map_of d k)" by blast
    ultimately show ?thesis by (simp only: cnt option.map)
  qed
  have crossed_eq: "crossed d d' = {k \<in> ?K. \<not> ?D k \<subseteq> ?done \<and> ?D k \<subseteq> ?done \<union> set queue}"
  proof -
    have dom: "map_of d k = None" if "k \<notin> ?K" for k
      using that i1 by (metis map_of_eq_None_keys set_map)
    have "k \<in> crossed d d' \<longleftrightarrow> k \<in> ?K \<and> \<not> ?D k \<subseteq> ?done \<and> ?D k \<subseteq> ?done \<union> set queue" for k
    proof (cases "k \<in> ?K")
      case False
      with dom show ?thesis by (simp add: crossed_def)
    next
      case True
      have f: "finite (?D k - ?done)" "finite (?D k - (?done \<union> set queue))" by simp_all
      from i3 True have dk: "map_of d k = Some (int (card (?D k - ?done)))" by blast
      have "k \<in> crossed d d' \<longleftrightarrow> 1 \<le> card (?D k - ?done) \<and> card (?D k - (?done \<union> set queue)) = 0"
        unfolding crossed_def mem_Collect_eq dk deg'[OF True] by simp
      also have "\<dots> \<longleftrightarrow> ?D k - ?done \<noteq> {} \<and> ?D k - (?done \<union> set queue) = {}"
      proof -
        have "1 \<le> card (?D k - ?done) \<longleftrightarrow> ?D k - ?done \<noteq> {}"
          using f(1) by (simp add: Suc_le_eq card_gt_0_iff)
        moreover have "card (?D k - (?done \<union> set queue)) = 0 \<longleftrightarrow> ?D k - (?done \<union> set queue) = {}"
          using f(2) by simp
        ultimately show ?thesis by simp
      qed
      also have "\<dots> \<longleftrightarrow> \<not> ?D k \<subseteq> ?done \<and> ?D k \<subseteq> ?done \<union> set queue" by auto
      finally show ?thesis using True by simp
    qed
    then show ?thesis by blast
  qed
  have closed: "\<And>s. s \<in> ?done \<Longrightarrow> ?D s \<subseteq> ?done" using levels_ok_closed[OF i5] by simp
  have n4: "set queue' = {k \<in> ?K. k \<notin> ?done \<union> set queue \<and> ?D k \<subseteq> ?done \<union> set queue}"
  proof -
    have "(\<not> ?D k \<subseteq> ?done) \<longleftrightarrow> k \<notin> ?done \<union> set queue"
      if "k \<in> ?K" "?D k \<subseteq> ?done \<union> set queue" for k
    proof
      assume a: "\<not> ?D k \<subseteq> ?done"
      with closed have "k \<notin> ?done" by blast
      moreover from a i4 have "k \<notin> set queue" by blast
      ultimately show "k \<notin> ?done \<union> set queue" by simp
    next
      assume a: "k \<notin> ?done \<union> set queue"
      show "\<not> ?D k \<subseteq> ?done"
      proof
        assume "?D k \<subseteq> ?done"
        with that(1) a i4 show False by blast
      qed
    qed
    then show ?thesis unfolding q' crossed_eq by blast
  qed
  have n2: "distinct (concat (groups @ [queue]) @ queue')"
    using i2(1) dq' n4 by auto
  have n2': "set (concat (groups @ [queue]) @ queue') \<subseteq> fst ` set nds'"
    using i2(2) n4 K' by auto
  have n3: "\<forall>k \<in> fst ` set nds'. map_of d' k
              = Some (int (card (set (deps_of nds' k) - set (concat (groups @ [queue])))))"
    using deg' by (simp add: K' D')
  have n5: "levels_ok (has_edge nds') (groups @ [queue])"
    unfolding E' by (rule levels_ok_snoc[OF i5]) (use i4 in auto)
  have n6: "\<forall>k \<in> set (concat (groups @ [queue])). is_executed nds' k"
    using ex i6 by auto
  have n7: "[] \<notin> set (groups @ [queue])" using i7 ne by auto
  have n1: "map fst d' = map fst nds'" using kd i1 keys by simp
  have n4': "set queue' = {k \<in> fst ` set nds'. k \<notin> set (concat (groups @ [queue])) \<and>
                    set (deps_of nds' k) \<subseteq> set (concat (groups @ [queue]))}"
    using n4 by (simp add: K' D')
  show ?thesis
    unfolding kahn_inv_def by (intro conjI n1 n2 n2' n3 n4' n5 n6 n7)
qed

lemma edges_subset_keys:
  assumes "well_formed nds"
  shows "edges nds \<subseteq> fst ` set nds \<times> fst ` set nds"
proof
  fix e assume "e \<in> edges nds"
  then obtain a b where e: "e = (a, b)" and b: "b \<in> set (deps_of nds a)"
    by (auto simp: edges_def has_edge_def)
  from b have "map_of nds a \<noteq> None" by (cases "map_of nds a") (auto simp: deps_of_def)
  then have "a \<in> fst ` set nds" by (simp add: map_of_eq_None_keys)
  moreover from well_formed_refs[OF assms] b have "b \<in> fst ` set nds" by blast
  ultimately show "e \<in> fst ` set nds \<times> fst ` set nds" using e by simp
qed

lemma kahn_final:
  assumes wf: "well_formed nds" and acyc: "acyclic (edges nds)"
    and inv: "kahn_inv nds d [] groups"
  shows "set (concat groups) = fst ` set nds"
proof -
  let ?K = "fst ` set nds"
  let ?done = "set (concat groups)"
  from kahn_invD(3)[OF inv] have sub: "?done \<subseteq> ?K" by simp
  from kahn_invD(5)[OF inv]
  have none: "{k \<in> ?K. k \<notin> ?done \<and> set (deps_of nds k) \<subseteq> ?done} = {}" by simp
  have "finite (edges nds)"
    by (rule finite_subset[OF edges_subset_keys[OF wf]]) simp
  then have "finite ((edges nds)\<inverse>)" by simp
  moreover from acyc have "acyclic ((edges nds)\<inverse>)" by simp
  ultimately have wfr: "wf ((edges nds)\<inverse>)" by (rule finite_acyclic_wf)
  have "?K \<subseteq> ?done"
  proof (rule ccontr)
    assume "\<not> ?K \<subseteq> ?done"
    then obtain x where x: "x \<in> ?K - ?done" by blast
    obtain z where z: "z \<in> ?K - ?done"
      and min: "\<And>y. (y, z) \<in> (edges nds)\<inverse> \<Longrightarrow> y \<notin> ?K - ?done"
      by (rule wfE_min[OF wfr x]) (rule that, assumption, blast)
    have "set (deps_of nds z) \<subseteq> ?done"
    proof
      fix y assume y: "y \<in> set (deps_of nds z)"
      then have "(y, z) \<in> (edges nds)\<inverse>" by (simp add: edges_def has_edge_def)
      from min[OF this] have "y \<notin> ?K - ?done" .
      moreover from well_formed_refs[OF wf] y have "y \<in> ?K" by blast
      ultimately show "y \<in> ?done" by simp
    qed
    with z have "z \<in> {k \<in> ?K. k \<notin> ?done \<and> set (deps_of nds k) \<subseteq> ?done}" by simp
    with none show False by blast
  qed
  with sub show ?thesis by blast
qed

lemma shape_has_edge: "shape nds' = shape nds \<Longrightarrow> has_edge nds' = has_edge nds"
proof -
  assume s: "shape nds' = shape nds"
  have "has_edge nds' a b = has_edge nds a b" for a b
    unfolding has_edge_def shape_deps_of[OF s] ..
  then show ?thesis by (intro ext)
qed

lemma shape_edges: "shape nds' = shape nds \<Longrightarrow> edges nds' = edges nds"
proof -
  assume s: "shape nds' = shape nds"
  show ?thesis unfolding edges_def shape_has_edge[OF s] ..
qed

lemma schedule_loop_correct:
  "iteration_order it \<Longrightarrow> well_formed nds \<Longrightarrow> acyclic (edges nds) \<Longrightarrow>
   kahn_inv nds d queue groups \<Longrightarrow>
     \<exists>nds' groups'. schedule_loop it nds d queue groups = (nds', Inr groups') \<and>
        shape nds' = shape nds \<and> distinct (concat groups') \<and>
        set (concat groups') = fst ` set nds \<and> levels_ok (has_edge nds) groups' \<and>
        [] \<notin> set groups' \<and> (\<forall>k \<in> fst ` set nds. is_executed nds' k)"
proof (induction it nds d queue groups rule: schedule_loop.induct)
  case (1 it nds d queue groups)
  note it = "1.prems"(1) and wf = "1.prems"(2) and acyc = "1.prems"(3) and inv = "1.prems"(4)
  show ?case
  proof (cases "queue = []")
    case True
    from kahn_final[OF wf acyc inv[unfolded True]] have all: "set (concat groups) = fst ` set nds" .
    from kahn_invD(2)[OF inv] have dc: "distinct (concat groups)" by simp
    have ex: "\<forall>k \<in> fst ` set nds. is_executed nds k"
      using kahn_invD(7)[OF inv] by (simp only: all)
    have res: "schedule_loop it nds d queue groups = (nds, Inr groups)" using True by simp
    show ?thesis
      by (intro exI[of _ nds] exI[of _ groups] conjI res refl dc all kahn_invD(6)[OF inv]
            kahn_invD(8)[OF inv] ex)
  next
    case False
    from kahn_invD(3)[OF inv] have qsub: "set queue \<subseteq> fst ` set nds" by simp
    from wf have deps: "\<forall>g. distinct (dependents_of nds g) \<and> set (dependents_of nds g) \<subseteq> fst ` set nds"
      by (simp add: well_formed_def)
    from process_group_spec[OF it qsub kahn_invD(1)[OF inv] deps, of "[]"]
    obtain nds1 d1 q1 where
      pg: "process_group it nds d [] queue = (nds1, Inr (d1, q1))" and
      sh: "shape nds1 = shape nds" and kd: "map fst d1 = map fst d" and
      m: "\<forall>k. map_of d1 k =
               map_option (\<lambda>v. v - int (length (filter (\<lambda>g. k \<in> set (dependents_of nds g)) queue)))
                 (map_of d k)" and
      ex: "\<forall>k. is_executed nds1 k \<longleftrightarrow> is_executed nds k \<or> k \<in> set queue" and
      q: "set q1 = set [] \<union> crossed d d1" and st: "settled d [] \<longrightarrow> settled d1 q1"
      by (elim exE conjE) (rule that; assumption)
    from st have dq1: "distinct q1" by (simp add: settled_def)
    from q have q': "set q1 = crossed d d1" by simp
    from kahn_inv_step[OF wf inv False sh kd m ex q' dq1]
    have inv1: "kahn_inv nds1 d1 q1 (groups @ [queue])" .
    have wf1: "well_formed nds1" using wf by (simp add: shape_well_formed[OF sh])
    have acyc1: "acyclic (edges nds1)" using acyc by (simp add: shape_edges[OF sh])
    from "1.IH"[OF False pg[symmetric] refl refl it wf1 acyc1 inv1]
    obtain nds' groups' where
      r: "schedule_loop it nds1 d1 q1 (groups @ [queue]) = (nds', Inr groups')" and
      sh': "shape nds' = shape nds1" and d': "distinct (concat groups')" and
      s': "set (concat groups') = fst ` set nds1" and l': "levels_ok (has_edge nds1) groups'" and
      n': "[] \<notin> set groups'" and e': "\<forall>k \<in> fst ` set nds1. is_executed nds' k"
      by (elim exE conjE) (rule that; assumption)
    from shape_keys[OF sh] have K1: "fst ` set nds1 = fst ` set nds" by (metis set_map)
    have res: "schedule_loop it nds d queue groups = (nds', Inr groups')"
      using False pg r by simp
    have sh2: "shape nds' = shape nds" using sh sh' by simp
    have s2: "set (concat groups') = fst ` set nds" using s' K1 by simp
    have l2: "levels_ok (has_edge nds) groups'" using l' by (simp only: shape_has_edge[OF sh])
    have e2: "\<forall>k \<in> fst ` set nds. is_executed nds' k" using e' by (simp only: K1)
    show ?thesis
      by (intro exI[of _ nds'] exI[of _ groups'] conjI res sh2 d' s2 l2 n' e2)
  qed
qed

lemma map_of_initial_in_degree:
  "map_of (initial_in_degree nds) k
     = map_option (\<lambda>node. int (length (dependencies node))) (map_of nds k)"
  by (induction nds) (auto simp: initial_in_degree_def)

lemma kahn_inv_initial:
  assumes wf: "well_formed nds"
  shows "kahn_inv nds (initial_in_degree nds) (initial_queue (initial_in_degree nds)) []"
proof -
  let ?d = "initial_in_degree nds"
  from wf have dist: "distinct (map fst nds)" by (simp add: well_formed_def)
  have k: "map fst ?d = map fst nds" by (simp add: initial_in_degree_def comp_def)
  then have dd: "distinct (map fst ?d)" using dist by simp
  have deg: "map_of ?d k = Some (int (card (set (deps_of nds k))))" if "k \<in> fst ` set nds" for k
  proof -
    from that have "map_of nds k \<noteq> None" by (simp add: map_of_eq_None_keys)
    then obtain node where node: "map_of nds k = Some node" by auto
    then have "deps_of nds k = dependencies node" by (simp add: deps_of_def)
    moreover from wf have "distinct (deps_of nds k)" by (simp add: well_formed_def)
    ultimately have "card (set (deps_of nds k)) = length (dependencies node)"
      by (simp add: distinct_card)
    with node show ?thesis by (simp add: map_of_initial_in_degree)
  qed
  have q: "set (initial_queue ?d) = {k \<in> fst ` set nds. set (deps_of nds k) \<subseteq> {}}"
  proof -
    have "k \<in> set (initial_queue ?d) \<longleftrightarrow> k \<in> fst ` set nds \<and> set (deps_of nds k) \<subseteq> {}" for k
    proof
      assume "k \<in> set (initial_queue ?d)"
      then have in_d: "(k, 0) \<in> set ?d" by (auto simp: initial_queue_def)
      with dd have m0: "map_of ?d k = Some 0" by simp
      from in_d have kin: "k \<in> fst ` set ?d" by force
      then have kk: "k \<in> fst ` set nds" using k by (metis set_map)
      from deg[OF kk] m0 have "card (set (deps_of nds k)) = 0" by simp
      with kk show "k \<in> fst ` set nds \<and> set (deps_of nds k) \<subseteq> {}" by simp
    next
      assume a: "k \<in> fst ` set nds \<and> set (deps_of nds k) \<subseteq> {}"
      with deg[of k] have "map_of ?d k = Some 0" by simp
      then have "(k, 0) \<in> set ?d" by (rule map_of_SomeD)
      then show "k \<in> set (initial_queue ?d)" by (force simp: initial_queue_def)
    qed
    then show ?thesis by blast
  qed
  have dq: "distinct (initial_queue ?d)"
    unfolding initial_queue_def using dd by (rule distinct_map_filter)
  have sub: "set (initial_queue ?d) \<subseteq> fst ` set nds" using q by blast
  show ?thesis
    unfolding kahn_inv_def
  proof (intro conjI)
    show "map fst ?d = map fst nds" by (rule k)
    show "distinct (concat [] @ initial_queue ?d)" using dq by simp
    show "set (concat [] @ initial_queue ?d) \<subseteq> fst ` set nds" using sub by simp
    show "\<forall>k \<in> fst ` set nds. map_of ?d k = Some (int (card (set (deps_of nds k) - set (concat []))))"
      using deg by simp
    show "set (initial_queue ?d) = {k \<in> fst ` set nds. k \<notin> set (concat []) \<and>
                    set (deps_of nds k) \<subseteq> set (concat [])}"
      using q by simp
    show "levels_ok (has_edge nds) []" by (simp add: levels_ok_def)
    show "\<forall>k \<in> set (concat []). is_executed nds k" by simp
    show "[] \<notin> set []" by simp
  qed
qed

lemma get_execution_order_correct:
  assumes it: "iteration_order it" and wf: "well_formed nds" and acyc: "acyclic (edges nds)"
  shows "\<exists>nds' groups. get_execution_order it nds = (nds', Inr groups) \<and>
           shape nds' = shape nds \<and> distinct (concat groups) \<and>
           set (concat groups) = fst ` set nds \<and> levels_ok (has_edge nds) groups \<and>
           [] \<notin> set groups \<and> (\<forall>kv \<in> set nds'. executed (snd kv))"
proof -
  from schedule_loop_correct[OF it wf acyc kahn_inv_initial[OF wf]]
  obtain nds' groups where
    r: "schedule_loop it nds (initial_in_degree nds) (initial_queue (initial_in_degree nds)) []
          = (nds', Inr groups)" and
    sh: "shape nds' = shape nds" and d: "distinct (concat groups)" and
    s: "set (concat groups) = fst ` set nds" and l: "levels_ok (has_edge nds) groups" and
    n: "[] \<notin> set groups" and e: "\<forall>k \<in> fst ` set nds. is_executed nds' k"
    by (elim exE conjE) (rule that; assumption)
  from shape_keys[OF sh] have keys: "map fst nds' = map fst nds" .
  with wf have dist: "distinct (map fst nds')" by (simp add: well_formed_def)
  have all: "\<forall>kv \<in> set nds'. executed (snd kv)"
  proof
    fix kv assume kv: "kv \<in> set nds'"
    with dist have m: "map_of nds' (fst kv) = Some (snd kv)" by simp
    from kv have "fst kv \<in> fst ` set nds'" by simp
    then have "fst kv \<in> fst ` set nds" using keys by (metis set_map)
    with e have "is_executed nds' (fst kv)" by blast
    with m show "executed (snd kv)" by (simp add: is_executed_def)
  qed
  then have "filter (\<lambda>kv. \<not> executed (snd kv)) nds' = []" by (simp add: filter_empty_conv)
  with r have "get_execution_order it nds = (nds', Inr groups)"
    by (simp add: get_execution_order_def Let_def)
  then show ?thesis
    by (intro exI[of _ nds'] exI[of _ groups] conjI sh d s l n all)
qed

subsection \<open>Constructed graphs\<close>

lemma constructed_graph:
  assumes g: "DAGBuilder lim it plan = Inr g"
  shows "well_formed (after_calls it g calls)"
    and "has_edge (after_calls it g calls) = depends_on plan"
    and "edges (after_calls it g calls) = dependency_relation plan"
    and "fst ` set (after_calls it g calls) = name ` set (suites plan)"
proof -
  from g have b: "build_relationships (create_nodes [] (suites plan)) (suites plan) = Inr g"
    by (simp add: DAGBuilder_Inr)
  have sh: "shape (after_calls it g calls) = shape g" by (rule shape_after_calls)
  show "well_formed (after_calls it g calls)" by (rule DAGBuilder_after_calls_well_formed[OF g])
  show "has_edge (after_calls it g calls) = depends_on plan"
    unfolding shape_has_edge[OF sh] by (rule built_has_edge[OF b])
  show "edges (after_calls it g calls) = dependency_relation plan"
    unfolding shape_edges[OF sh] by (rule built_edges[OF b])
  from shape_keys[OF sh] have "fst ` set (after_calls it g calls) = fst ` set g" by (metis set_map)
  then show "fst ` set (after_calls it g calls) = name ` set (suites plan)"
    by (simp only: built_keys(2)[OF b])
qed

lemma DAGBuilder_acyclic:
  assumes it: "iteration_order it" and g: "DAGBuilder lim it plan = Inr g"
  shows "valid_references plan" and "acyclic (dependency_relation plan)"
proof -
  from DAGBuilder_cases[OF it, of lim plan] g
  have "valid_references plan \<and> (\<forall>k. (k, k) \<notin> (dependency_relation plan)\<^sup>+)" by auto
  then show "valid_references plan" and "acyclic (dependency_relation plan)"
    by (simp_all add: acyclic_def)
qed


lemma constructed_execution_order:
  assumes it: "iteration_order it" and g: "DAGBuilder lim it plan = Inr g"
  shows "\<exists>nds' groups. get_execution_order it (after_calls it g calls) = (nds', Inr groups) \<and>
           distinct (concat groups) \<and> set (concat groups) = name ` set (suites plan) \<and>
           levels_ok (depends_on plan) groups \<and> [] \<notin> set groups"
proof -
  let ?nds = "after_calls it g calls"
  have acyc: "acyclic (edges ?nds)"
    unfolding constructed_graph(3)[OF g] by (rule DAGBuilder_acyclic(2)[OF it g])
  from get_execution_order_correct[OF it constructed_graph(1)[OF g] acyc]
  obtain nds' groups where
    r: "get_execution_order it ?nds = (nds', Inr groups)" and d: "distinct (concat groups)" and
    s: "set (concat groups) = fst ` set ?nds" and l: "levels_ok (has_edge ?nds) groups" and
    n: "[] \<notin> set groups"
    by (elim exE conjE) (rule that; assumption)
  from s have s': "set (concat groups) = name ` set (suites plan)"
    by (simp only: constructed_graph(4)[OF g])
  from l have l': "levels_ok (depends_on plan) groups"
    by (simp only: constructed_graph(2)[OF g])
  show ?thesis by (intro exI[of _ nds'] exI[of _ groups] conjI r d s' l' n)
qed

lemma built_suite:
  assumes "build_relationships (create_nodes [] ss) ss = Inr nds"
  shows "map_option suite (map_of nds k) = find (\<lambda>s. name s = k) (rev ss)"
proof -
  have "map_option suite (map_of nds k) = map_option fst (map_option frame (map_of nds k))"
    by (simp add: option.map_comp comp_def frame_def)
  also have "\<dots> = find (\<lambda>s. name s = k) (rev ss)"
    unfolding built_nodes[OF assms] by (simp add: option.map_comp comp_def option.map_ident)
  finally show ?thesis .
qed

lemma split_groups_zero: "groups \<noteq> [] \<Longrightarrow> split_groups result groups 0 = Inl RangeStepZero"
  by (cases groups) (simp_all add: py_range_def)

subsection \<open>The level schedule leaves the statuses alone\<close>

lemma statuses_map_entry:
  "(\<And>node. status (f node) = status node) \<Longrightarrow> statuses (AList.map_entry k f nds) = statuses nds"
  by (induction nds) (auto simp: statuses_def)

lemma statuses_process_group:
  "statuses (fst (process_group it nds d q grp)) = statuses nds"
proof (induction grp arbitrary: nds d q)
  case Nil
  then show ?case by simp
next
  case (Cons x grp)
  have e: "statuses (AList.map_entry x (\<lambda>node. node\<lparr>executed := True\<rparr>) nds) = statuses nds"
    by (simp add: statuses_map_entry)
  show ?case
    by (auto simp: Let_def e Cons.IH split: option.splits sum.splits)
qed

lemma statuses_schedule_loop:
  "statuses (fst (schedule_loop it nds d q groups)) = statuses nds"
proof (induction it nds d q groups rule: schedule_loop.induct)
  case (1 it nds in_degree queue groups)
  show ?case
  proof (cases "queue = []")
    case True
    then show ?thesis by simp
  next
    case False
    obtain n1 r where pg: "process_group it nds in_degree [] queue = (n1, r)"
      by (cases "process_group it nds in_degree [] queue")
    from statuses_process_group[of it nds in_degree "[]" queue] pg
    have s1: "statuses n1 = statuses nds" by simp
    show ?thesis
    proof (cases r)
      case (Inl e)
      with False pg s1 show ?thesis by simp
    next
      case (Inr b)
      obtain d' q' where b: "b = (d', q')" by (cases b)
      from "1.IH"[OF False pg[symmetric] Inr b[symmetric]] s1 False pg Inr b
      show ?thesis by simp
    qed
  qed
qed

lemma statuses_get_execution_order: "statuses (fst (get_execution_order it nds)) = statuses nds"
proof -
  obtain n1 r where s: "schedule_loop it nds (initial_in_degree nds)
                          (initial_queue (initial_in_degree nds)) [] = (n1, r)"
    by (cases "schedule_loop it nds (initial_in_degree nds) (initial_queue (initial_in_degree nds)) []")
  from statuses_schedule_loop[of it nds "initial_in_degree nds" "initial_queue (initial_in_degree nds)" "[]"] s
  have "statuses n1 = statuses nds" by simp
  with s show ?thesis
    by (auto simp: get_execution_order_def Let_def split: sum.splits)
qed

lemma statuses_get_stats: "statuses (fst (get_stats it nds)) = statuses nds"
  by (simp add: fst_get_stats statuses_get_execution_order)

text \<open>A successful \<^verbatim>\<open>get_execution_order\<close> leaves every execution flag set.\<close>

lemma get_execution_order_flags:
  "get_execution_order it nds = (nds', Inr groups) \<Longrightarrow> \<forall>kv \<in> set nds'. executed (snd kv)"
proof -
  assume r: "get_execution_order it nds = (nds', Inr groups)"
  obtain n1 r1 where s: "schedule_loop it nds (initial_in_degree nds)
                          (initial_queue (initial_in_degree nds)) [] = (n1, r1)"
    by (cases "schedule_loop it nds (initial_in_degree nds) (initial_queue (initial_in_degree nds)) []")
  from r s have "n1 = nds'" and "filter (\<lambda>kv. \<not> executed (snd kv)) n1 = []"
    by (auto simp: get_execution_order_def Let_def split: sum.splits if_splits)
  then show ?thesis by (simp add: filter_empty_conv)
qed

subsection \<open>The recursion limit and the ceiling 0\<close>

text \<open>A chain of three suites, each depending on the next: with room for two nested
  activations of \<^verbatim>\<open>dfs\<close> the constructor raises \<^verbatim>\<open>RecursionError\<close>, with room for three
  it returns the graph.\<close>

lemma DAGBuilder_chain_too_deep:
  "DAGBuilder 2 (\<lambda>xs. xs)
     (example_plan [example_suite ''A'' [''B''], example_suite ''B'' [''C''], example_suite ''C'' []])
     = Inl RecursionError"
  "DAGBuilder 3 (\<lambda>xs. xs)
     (example_plan [example_suite ''A'' [''B''], example_suite ''B'' [''C''], example_suite ''C'' []])
     = Inr [(''A'', (new_node (example_suite ''A'' [''B'']))\<lparr>dependencies := [''B'']\<rparr>),
            (''B'', (new_node (example_suite ''B'' [''C'']))\<lparr>dependencies := [''C''], dependents := [''A'']\<rparr>),
            (''C'', (new_node (example_suite ''C'' []))\<lparr>dependents := [''B'']\<rparr>)]"
  by code_simp+

lemma iteration_order_single: "iteration_order it \<Longrightarrow> it [x] = [x]"
proof -
  assume "iteration_order it"
  then have "mset (it [x]) = {#x#}" by (simp add: iteration_order_def)
  then show ?thesis by (simp add: mset_single_iff_right)
qed

lemma dfs_chain_overflow:
  assumes it: "iteration_order it"
    and chain: "\<forall>i < k. \<exists>node. map_of nds (c i) = Some node \<and> dependencies node = [c (Suc i)]"
    and inj: "inj_on c {.. k}"
  shows "j + (lim - depth) \<le> k \<Longrightarrow> \<forall>i. j \<le> i \<and> i \<le> k \<longrightarrow> map_of col (c i) = Some WHITE \<Longrightarrow>
           dfs lim it nds depth (col, path) (c j) = Inl RecursionError"
proof (induction "lim - depth" arbitrary: depth j col path)
  case 0
  then show ?case by simp
next
  case (Suc m)
  from Suc.hyps(2) have room: "\<not> lim \<le> depth" and m: "m = lim - Suc depth" by simp_all
  from Suc.hyps(2) Suc.prems(1) have jk: "j < k" by simp
  with chain obtain node :: DAGNode where
    node: "map_of nds (c j) = Some node" and deps: "dependencies node = [c (Suc j)]" by blast
  have ne: "c (Suc j) \<noteq> c j" using inj_onD[OF inj, of "Suc j" j] jk by auto
  let ?col = "AList.update (c j) GRAY col"
  have white: "\<forall>i. Suc j \<le> i \<and> i \<le> k \<longrightarrow> map_of ?col (c i) = Some WHITE"
  proof (intro allI impI)
    fix i assume i: "Suc j \<le> i \<and> i \<le> k"
    then have "c i \<noteq> c j" using inj_onD[OF inj, of i j] jk by auto
    with i Suc.prems(2) show "map_of ?col (c i) = Some WHITE" by (simp add: update_conv')
  qed
  from Suc.hyps(2) Suc.prems(1) have "Suc j + (lim - Suc depth) \<le> k" by simp
  from Suc.hyps(1)[OF m this white]
  have inner: "dfs lim it nds (Suc depth) (?col, path @ [c j]) (c (Suc j)) = Inl RecursionError" .
  from white jk have w: "map_of ?col (c (Suc j)) = Some WHITE" by simp
  show ?case
    using room node deps inner w by (simp add: iteration_order_single[OF it])
qed

lemma chain_name_inj: "inj chain_name"
proof (rule injI)
  fix i j assume "chain_name i = chain_name j"
  then have "length (chain_name i) = length (chain_name j)" by simp
  then show "i = j" by (simp add: chain_name_def)
qed

lemma chain_suites_names: "map name (chain_suites n) = map chain_name [0 ..< n]"
  by (simp add: chain_suites_def example_suite_def comp_def)

lemma chain_depends_on:
  "depends_on (example_plan (chain_suites n)) a b \<longleftrightarrow>
     (\<exists>i. Suc i < n \<and> a = chain_name i \<and> b = chain_name (Suc i))"
  by (auto simp: depends_on_def example_plan_def chain_suites_def example_suite_def
           split: if_splits)

lemma chain_valid_references: "valid_references (example_plan (chain_suites n))"
proof -
  have names: "name ` set (chain_suites n) = chain_name ` {0 ..< n}"
    using arg_cong[OF chain_suites_names, of set n] by simp
  have "d \<in> chain_name ` {0 ..< n}"
    if "s \<in> set (chain_suites n)" "d \<in> set (TestSuite.dependencies s)" for s d
    using that by (auto simp: chain_suites_def example_suite_def split: if_splits)
  then show ?thesis
    unfolding valid_references_def by (simp add: example_plan_def names)
qed

lemma chain_acyclic: "acyclic (dependency_relation (example_plan (chain_suites n)))"
proof -
  have "dependency_relation (example_plan (chain_suites n)) \<subseteq> inv_image less_than length"
    by (auto simp: dependency_relation_def chain_depends_on chain_name_def)
  moreover have "acyclic (inv_image less_than length :: (string \<times> string) set)"
    by (intro wf_acyclic wf_inv_image wf_less_than)
  ultimately show ?thesis by (rule acyclic_subset[rotated])
qed

lemma create_nodes_key_order:
  "distinct (map name ss) \<Longrightarrow> name ` set ss \<inter> fst ` set nds = {} \<Longrightarrow>
     map fst (create_nodes nds ss) = map fst nds @ map name ss"
proof (induction ss arbitrary: nds)
  case Nil
  then show ?case by simp
next
  case (Cons s ss)
  from Cons.prems have fresh: "name s \<notin> fst ` set nds" by auto
  then have k: "map fst (AList.update (name s) (new_node s) nds) = map fst nds @ [name s]"
    by (simp add: update_keys)
  from Cons.prems have "name ` set ss \<inter> fst ` set (AList.update (name s) (new_node s) nds) = {}"
    by (auto simp: dom_update)
  with Cons.IH[of "AList.update (name s) (new_node s) nds"] Cons.prems k show ?case by simp
qed

text \<open>On a chain of more suites than the traversal has room for nested activations,
  the constructor raises \<^verbatim>\<open>RecursionError\<close>, although the references are valid and
  nothing is cyclic.\<close>

lemma DAGBuilder_chain_overflow:
  assumes it: "iteration_order it" and deep: "lim < n"
  shows "DAGBuilder lim it (example_plan (chain_suites n)) = Inl RecursionError"
proof -
  let ?plan = "example_plan (chain_suites n)"
  have ss: "suites ?plan = chain_suites n" by (simp add: example_plan_def)
  from build_relationships_total[OF chain_valid_references, of n] obtain nds where
    b: "build_relationships (create_nodes [] (suites ?plan)) (suites ?plan) = Inr nds" ..
  have dist: "distinct (map name (chain_suites n))"
    unfolding chain_suites_names using chain_name_inj
    by (simp add: distinct_map inj_on_def)
  have keys: "map fst nds = map chain_name [0 ..< n]"
    using build_relationships_keys[OF b] create_nodes_key_order[OF dist, of "[]"]
    by (simp add: ss chain_suites_names)
  from deep have n: "[0 ..< n] = 0 # [1 ..< n]" by (simp add: upt_rec)
  have first: "map fst nds = chain_name 0 # map chain_name [1 ..< n]"
    unfolding keys by (subst n) simp
  have mem: "chain_name i \<in> fst ` set nds" if "i < n" for i
  proof -
    have "chain_name i \<in> set (map fst nds)" unfolding keys using that by simp
    then show ?thesis by simp
  qed
  have chain: "\<forall>i < n - 1. \<exists>node. map_of nds (chain_name i) = Some node \<and>
                 dependencies node = [chain_name (Suc i)]"
  proof (intro allI impI)
    fix i assume i: "i < n - 1"
    then have "i < n" by simp
    from mem[OF this] have "map_of nds (chain_name i) \<noteq> None"
      by (simp add: map_of_eq_None_keys)
    then obtain node :: DAGNode where node: "map_of nds (chain_name i) = Some node" by auto
    then have d: "deps_of nds (chain_name i) = dependencies node" by (simp add: deps_of_def)
    have "set (deps_of nds (chain_name i)) = {d. depends_on ?plan (chain_name i) d}"
      unfolding built_deps(1)[OF b] depends_on_def ..
    also have "\<dots> = {chain_name (Suc i)}"
    proof -
      from i have "depends_on ?plan (chain_name i) (chain_name (Suc i))"
        unfolding chain_depends_on by (intro exI[of _ i]) simp
      moreover have "d = chain_name (Suc i)" if "depends_on ?plan (chain_name i) d" for d
        using that injD[OF chain_name_inj] by (auto simp: chain_depends_on)
      ultimately show ?thesis by blast
    qed
    finally have s: "set (dependencies node) = {chain_name (Suc i)}" by (simp add: d)
    from built_well_formed[OF b] have "distinct (deps_of nds (chain_name i))"
      by (simp add: well_formed_def)
    then have "distinct (dependencies node)" by (simp add: d)
    with s have "dependencies node = [chain_name (Suc i)]"
      by (cases "dependencies node") (auto simp: distinct_length_2_or_more
            dest: subset_singletonD)
    with node show "\<exists>node. map_of nds (chain_name i) = Some node \<and>
                 dependencies node = [chain_name (Suc i)]" by blast
  qed
  have inj: "inj_on chain_name {.. n - 1}" using chain_name_inj by (rule inj_on_subset) simp
  have white: "\<forall>i. 0 \<le> i \<and> i \<le> n - 1 \<longrightarrow> map_of (initial_colors nds) (chain_name i) = Some WHITE"
    using mem deep by (simp add: map_of_initial_colors)
  from deep have "0 + (lim - 0) \<le> n - 1" by simp
  from dfs_chain_overflow[OF it chain inj this white]
  have d: "dfs lim it nds 0 (initial_colors nds, []) (chain_name 0) = Inl RecursionError" .
  from white have w: "map_of (initial_colors nds) (chain_name 0) = Some WHITE" by simp
  have "detect_cycles lim it nds = Inl RecursionError"
    unfolding detect_cycles_def first using d w by simp
  with b show ?thesis by (simp add: DAGBuilder_def build_def)
qed

text \<open>So it is at the default recursion limit: a chain of 1001 suites is a plan with
  valid references and no cycle that the constructor does not accept.\<close>

lemma DAGBuilder_default_limit_chain:
  assumes "iteration_order it"
  shows "valid_references (example_plan (chain_suites 1001))"
    and "acyclic (dependency_relation (example_plan (chain_suites 1001)))"
    and "DAGBuilder 1000 it (example_plan (chain_suites 1001)) = Inl RecursionError"
  using DAGBuilder_chain_overflow[OF assms, of 1000 1001]
  by (simp_all add: chain_valid_references chain_acyclic)

text \<open>With the ceiling 0 the first \<^verbatim>\<open>range\<close> call of \<^verbatim>\<open>get_parallel_groups\<close> raises,
  on every constructed graph with at least one suite.\<close>

lemma get_parallel_groups_zero:
  assumes it: "iteration_order it" and g: "DAGBuilder lim it plan = Inr g"
    and ne: "suites plan \<noteq> []"
  shows "snd (get_parallel_groups it (after_calls it g calls) 0) = Inl RangeStepZero"
proof -
  from constructed_execution_order[OF it g, of calls] obtain nds' groups where
    r: "get_execution_order it (after_calls it g calls) = (nds', Inr groups)" and
    s: "set (concat groups) = name ` set (suites plan)"
    by (elim exE conjE) (rule that; assumption)
  from ne s have "groups \<noteq> []" by auto
  from split_groups_zero[OF this] r show ?thesis by (simp add: get_parallel_groups_def)
qed

section \<open>The claims\<close>

text \<open>
  \<^bold>\<open>C10.\<close> Calling \<^verbatim>\<open>mark_executed\<close> with a name that is not a node of the graph
  changes nothing: the node table that comes back is the one that went in, so every
  node keeps its execution flag and its status. The model of \<^verbatim>\<open>mark_executed\<close> has
  no error result because the method has no \<^verbatim>\<open>raise\<close> and no failing lookup (the
  membership test guards both attribute writes).
\<close>

theorem mark_executed_unknown_noop:
  "map_of nds nm = None \<Longrightarrow> mark_executed nds nm st = nds"
  by (simp add: mark_executed_def)

theorem mark_executed_unknown_noop_witness:
  "map_of [(''A'', new_node (example_suite ''A'' []))] ''Z'' = None \<and>
   mark_executed [(''A'', new_node (example_suite ''A'' []))] ''Z'' ''passed''
     = [(''A'', new_node (example_suite ''A'' []))]"
  using mark_executed_unknown_noop [of "[(''A'', new_node (example_suite ''A'' []))]" "''Z''" "''passed''"]
  by simp

text \<open>
  \<^bold>\<open>C7.\<close> The claim asks for an \<^verbatim>\<open>AlreadyExecuted\<close> error on a second
  \<^verbatim>\<open>mark_executed\<close> for the same suite, with the recorded status left alone. The
  method has no such check: marking suite \<open>A\<close> as passed and then as failed leaves the
  status failed.
\<close>

theorem mark_executed_twice_counterexample:
  "status (snd (hd (mark_executed [(''A'', new_node (example_suite ''A'' []))] ''A'' ''passed'')))
      = Some ''passed'' \<and>
   status (snd (hd (mark_executed
      (mark_executed [(''A'', new_node (example_suite ''A'' []))] ''A'' ''passed'') ''A'' ''failed'')))
      = Some ''failed''"
  by (simp add: mark_executed_def new_node_def)

text \<open>
  \<^bold>\<open>C7, as the code has it.\<close> For every suite of the graph, a second call of
  \<^verbatim>\<open>mark_executed\<close> raises nothing and has the effect of the second call alone: the
  execution flag stays set and the status is the one of the last call.
\<close>

theorem mark_executed_twice_overwrites:
  "map_of nds nm = Some node \<Longrightarrow>
     mark_executed (mark_executed nds nm s1) nm s2 = mark_executed nds nm s2 \<and>
     map_of (mark_executed (mark_executed nds nm s1) nm s2) nm
       = Some (node\<lparr>executed := True, status := Some s2\<rparr>)"
proof -
  assume n: "map_of nds nm = Some node"
  have 2: "mark_executed (mark_executed nds nm s1) nm s2 = mark_executed nds nm s2"
    using n by (simp add: mark_executed_def map_of_map_entry map_entry_twice comp_def)
  have 3: "map_of (mark_executed nds nm s2) nm = Some (node\<lparr>executed := True, status := Some s2\<rparr>)"
    using n by (simp add: mark_executed_def map_of_map_entry)
  from 2 3 show ?thesis by simp
qed

theorem mark_executed_twice_overwrites_witness:
  "map_of [(''A'', new_node (example_suite ''A'' []))] ''A'' = Some (new_node (example_suite ''A'' [])) \<and>
   map_of (mark_executed (mark_executed [(''A'', new_node (example_suite ''A'' []))] ''A'' ''passed'')
              ''A'' ''failed'') ''A''
     = Some ((new_node (example_suite ''A'' []))\<lparr>executed := True, status := Some ''failed''\<rparr>)"
proof -
  have h: "map_of [(''A'', new_node (example_suite ''A'' []))] ''A''
             = Some (new_node (example_suite ''A'' []))"
    by simp
  from mark_executed_twice_overwrites [OF h, where ?s1.0 = "''passed''" and ?s2.0 = "''failed''"] h
  show ?thesis by blast
qed

text \<open>
  \<^bold>\<open>C9.\<close> Readiness is independent of the recorded statuses. Two node tables of the
  same graph that agree on everything but the status fields (\<open>erase_status\<close> blanks
  exactly those) give the same answer to \<^verbatim>\<open>is_ready\<close> for every name and the same list
  from \<^verbatim>\<open>get_ready_suites\<close>, errors included. Two runs that pass different statuses to
  \<^verbatim>\<open>mark_executed\<close> are such a pair (lemma \<open>erase_status_mark_executed\<close>), so a failed
  dependency releases its dependents like a passed one.
\<close>

theorem readiness_ignores_status:
  "erase_status nds1 = erase_status nds2 \<Longrightarrow>
     is_ready it nds1 nm = is_ready it nds2 nm \<and>
     get_ready_suites it nds1 = get_ready_suites it nds2"
  by (metis is_ready_erase_status get_ready_suites_erase_status)

theorem readiness_ignores_status_witness:
  "erase_status (mark_executed [(''A'', new_node (example_suite ''A'' [])),
                                (''B'', (new_node (example_suite ''B'' [''A'']))\<lparr>dependencies := [''A'']\<rparr>)]
                   ''A'' ''passed'')
     = erase_status (mark_executed [(''A'', new_node (example_suite ''A'' [])),
                                (''B'', (new_node (example_suite ''B'' [''A'']))\<lparr>dependencies := [''A'']\<rparr>)]
                   ''A'' ''failed'') \<and>
   is_ready (\<lambda>xs. xs) (mark_executed [(''A'', new_node (example_suite ''A'' [])),
                                (''B'', (new_node (example_suite ''B'' [''A'']))\<lparr>dependencies := [''A'']\<rparr>)]
                   ''A'' ''passed'') ''B''
     = is_ready (\<lambda>xs. xs) (mark_executed [(''A'', new_node (example_suite ''A'' [])),
                                (''B'', (new_node (example_suite ''B'' [''A'']))\<lparr>dependencies := [''A'']\<rparr>)]
                   ''A'' ''failed'') ''B'' \<and>
   is_ready (\<lambda>xs. xs) (mark_executed [(''A'', new_node (example_suite ''A'' [])),
                                (''B'', (new_node (example_suite ''B'' [''A'']))\<lparr>dependencies := [''A'']\<rparr>)]
                   ''A'' ''failed'') ''B'' = Inr True"
proof -
  let ?g = "[(''A'', new_node (example_suite ''A'' [])),
             (''B'', (new_node (example_suite ''B'' [''A'']))\<lparr>dependencies := [''A'']\<rparr>)]"
  have h: "erase_status (mark_executed ?g ''A'' ''passed'') = erase_status (mark_executed ?g ''A'' ''failed'')"
    by (simp add: mark_executed_def erase_status_def)
  have r: "is_ready (\<lambda>xs. xs) (mark_executed ?g ''A'' ''failed'') ''B'' = Inr True"
    by (simp add: mark_executed_def is_ready_def new_node_def)
  from readiness_ignores_status [OF h, of "\<lambda>xs. xs" "''B''"] h r show ?thesis by blast
qed

text \<open>
  \<^bold>\<open>C8.\<close> For every group sequence and every positive ceiling, the splitting loop of
  \<^verbatim>\<open>get_parallel_groups\<close> returns, group after group, the chunks of that group
  (\<open>css\<close> lists them per group): the chunks of one group concatenate to exactly that
  group, so each is a contiguous piece of one group in the original order and no
  chunk mixes two groups; no chunk is empty or longer than the ceiling and every chunk
  but the last of its group has exactly the ceiling's length; the number of elements
  is unchanged. A group of 10 with ceiling 4 gives chunks of 4, 4 and 2.
  \<^verbatim>\<open>get_parallel_groups\<close> itself is this loop run on the result of
  \<^verbatim>\<open>get_execution_order\<close>.
\<close>

theorem get_parallel_groups_chunks:
  "0 < max_parallel \<Longrightarrow>
     (\<exists>css. split_groups [] groups max_parallel = Inr (concat css) \<and>
        list_all2 (\<lambda>cs grp. concat cs = grp \<and>
                    (\<forall>c \<in> set cs. c \<noteq> [] \<and> int (length c) \<le> max_parallel) \<and>
                    (\<forall>j. Suc j < length cs \<longrightarrow> int (length (cs ! j)) = max_parallel))
          css groups \<and>
        length (concat (concat css)) = length (concat groups)) \<and>
     (length grp = 10 \<longrightarrow> (\<exists>r. split_groups [] [grp] 4 = Inr r \<and> map length r = [4, 4, 2])) \<and>
     (get_execution_order it nds = (nds', Inr groups) \<longrightarrow>
        get_parallel_groups it nds max_parallel = (nds', split_groups [] groups max_parallel))"
proof -
  assume pos: "0 < max_parallel"
  define m where "m = nat max_parallel"
  have m: "0 < m" and mp: "max_parallel = int m" using pos by (simp_all add: m_def)
  let ?css = "map (chunks m) groups"
  have a: "split_groups [] groups max_parallel = Inr (concat ?css)"
    by (simp add: mp split_groups_eq[OF m])
  have b: "list_all2 (\<lambda>cs grp. concat cs = grp \<and>
                    (\<forall>c \<in> set cs. c \<noteq> [] \<and> int (length c) \<le> max_parallel) \<and>
                    (\<forall>j. Suc j < length cs \<longrightarrow> int (length (cs ! j)) = max_parallel))
          ?css groups"
    unfolding list_all2_map1 mp
    by (rule list_all2_refl) (use chunks_sizes[OF m] concat_chunks[OF m] in auto)
  have c: "concat (concat ?css) = concat groups"
    by (rule concat_concat_chunks[OF m])
  have d: "length grp = 10 \<longrightarrow> (\<exists>r. split_groups [] [grp] 4 = Inr r \<and> map length r = [4, 4, 2])"
  proof
    assume l: "length grp = 10"
    have "split_groups [] [grp] (int 4) = Inr ([] @ concat (map (chunks 4) [grp]))"
      by (rule split_groups_eq) simp
    then have r: "split_groups [] [grp] 4 = Inr (chunks 4 grp)" by simp
    show "\<exists>r. split_groups [] [grp] 4 = Inr r \<and> map length r = [4, 4, 2]"
      by (rule exI[of _ "chunks 4 grp"]) (simp only: r chunks_10_4[OF l] simp_thms)
  qed
  have e: "get_execution_order it nds = (nds', Inr groups) \<longrightarrow>
        get_parallel_groups it nds max_parallel = (nds', split_groups [] groups max_parallel)"
    by (simp add: get_parallel_groups_def)
  from c have c': "length (concat (concat ?css)) = length (concat groups)" by simp
  have first: "\<exists>css. split_groups [] groups max_parallel = Inr (concat css) \<and>
        list_all2 (\<lambda>cs grp. concat cs = grp \<and>
                    (\<forall>c \<in> set cs. c \<noteq> [] \<and> int (length c) \<le> max_parallel) \<and>
                    (\<forall>j. Suc j < length cs \<longrightarrow> int (length (cs ! j)) = max_parallel))
          css groups \<and>
        length (concat (concat css)) = length (concat groups)"
    by (rule exI[of _ ?css]) (intro conjI a b c')
  show ?thesis by (intro conjI first d e)
qed

theorem get_parallel_groups_chunks_witness:
  "(0::int) < 2 \<and> split_groups [] [[''A''], [''B'', ''C'', ''E''], [''D'']] 2
      = Inr [[''A''], [''B'', ''C''], [''E''], [''D'']] \<and>
   split_groups [] [[''a'', ''b'', ''c'', ''d'', ''e'', ''f'', ''g'', ''h'', ''i'', ''j'']] 4
      = Inr [[''a'', ''b'', ''c'', ''d''], [''e'', ''f'', ''g'', ''h''], [''i'', ''j'']]"
proof -
  have h: "(0::int) < 2" by simp
  have u: "[0 ..< 2] = [0, 1]" "[0 ..< 3] = [0, 1, 2]" by (simp_all add: upt_rec)
  have e1: "split_groups [] [[''A''], [''B'', ''C'', ''E''], [''D'']] 2
      = Inr [[''A''], [''B'', ''C''], [''E''], [''D'']]"
    by (simp add: py_range_def py_slice_def slice_bound_def u)
  have e2: "split_groups [] [[''a'', ''b'', ''c'', ''d'', ''e'', ''f'', ''g'', ''h'', ''i'', ''j'']] 4
      = Inr [[''a'', ''b'', ''c'', ''d''], [''e'', ''f'', ''g'', ''h''], [''i'', ''j'']]"
    by (simp add: py_range_def py_slice_def slice_bound_def u)
  from get_parallel_groups_chunks [OF h, of "[[''A''], [''B'', ''C'', ''E''], [''D'']]"]
  have "\<exists>css. split_groups [] [[''A''], [''B'', ''C'', ''E''], [''D'']] 2 = Inr (concat css)"
    by blast
  with h e1 e2 show ?thesis by simp
qed

text \<open>
  \<^bold>\<open>C2.\<close> The claim makes \<^verbatim>\<open>is_ready\<close> false for a suite whose own execution flag is
  set. The method does not read that flag (its docstring: ``all deps satisfied''):
  on the graph of the single suite \<open>A\<close>, after \<^verbatim>\<open>mark_executed("A", "passed")\<close> the
  flag of \<open>A\<close> is set and \<^verbatim>\<open>is_ready("A")\<close> is still true.
\<close>

theorem is_ready_executed_suite_counterexample:
  "DAGBuilder 1000 (\<lambda>xs. xs) (example_plan [example_suite ''A'' []])
     = Inr [(''A'', new_node (example_suite ''A'' []))] \<and>
   is_executed (mark_executed [(''A'', new_node (example_suite ''A'' []))] ''A'' ''passed'') ''A'' \<and>
   is_ready (\<lambda>xs. xs) (mark_executed [(''A'', new_node (example_suite ''A'' []))] ''A'' ''passed'') ''A''
     = Inr True"
  by code_simp

text \<open>
  \<^bold>\<open>C2, as the code has it.\<close> For every constructed graph, in the state reached by
  any sequence of calls of its mutating methods, and for every suite name present,
  \<^verbatim>\<open>is_ready\<close> returns true if and only if every suite of the declared dependency set
  has its execution flag set; the suite's own flag plays no part. So it is false
  while a dependency is unexecuted and true once the last one has been marked. The
  test for the suite's own flag is made by \<^verbatim>\<open>get_ready_suites\<close>, which returns, in
  key order, the unexecuted suites whose dependencies are all executed.
\<close>

theorem is_ready_iff_dependencies_executed:
  "iteration_order it \<Longrightarrow> DAGBuilder lim it plan = Inr g \<Longrightarrow> nds = after_calls it g calls \<Longrightarrow>
   map_of nds nm = Some node \<Longrightarrow>
     is_ready it nds nm = Inr (\<forall>d \<in> set (dependencies node). is_executed nds d) \<and>
     get_ready_suites it nds =
       Inr (map fst (filter (\<lambda>kv. \<not> executed (snd kv) \<and>
                              (\<forall>d \<in> set (dependencies (snd kv)). is_executed nds d)) nds))"
proof -
  assume it: "iteration_order it" and g: "DAGBuilder lim it plan = Inr g"
    and nds: "nds = after_calls it g calls" and node: "map_of nds nm = Some node"
  from DAGBuilder_after_calls_well_formed[OF g] nds have wf: "well_formed nds" by simp
  from is_ready_well_formed[OF it wf node] get_ready_suites_well_formed[OF it wf]
  show ?thesis by simp
qed

theorem is_ready_iff_dependencies_executed_witness:
  "iteration_order (\<lambda>xs. xs) \<and>
   DAGBuilder 1000 (\<lambda>xs. xs) (example_plan [example_suite ''A'' [], example_suite ''B'' [''A'']])
     = Inr [(''A'', (new_node (example_suite ''A'' []))\<lparr>dependents := [''B'']\<rparr>),
            (''B'', (new_node (example_suite ''B'' [''A'']))\<lparr>dependencies := [''A'']\<rparr>)] \<and>
   is_ready (\<lambda>xs. xs)
     [(''A'', (new_node (example_suite ''A'' []))\<lparr>dependents := [''B'']\<rparr>),
      (''B'', (new_node (example_suite ''B'' [''A'']))\<lparr>dependencies := [''A'']\<rparr>)] ''B'' = Inr False \<and>
   is_ready (\<lambda>xs. xs)
     (after_calls (\<lambda>xs. xs)
        [(''A'', (new_node (example_suite ''A'' []))\<lparr>dependents := [''B'']\<rparr>),
         (''B'', (new_node (example_suite ''B'' [''A'']))\<lparr>dependencies := [''A'']\<rparr>)]
        [MarkExecuted ''A'' ''failed'']) ''B''
     = Inr (\<forall>d \<in> set [''A''].
              is_executed (after_calls (\<lambda>xs. xs)
                [(''A'', (new_node (example_suite ''A'' []))\<lparr>dependents := [''B'']\<rparr>),
                 (''B'', (new_node (example_suite ''B'' [''A'']))\<lparr>dependencies := [''A'']\<rparr>)]
                [MarkExecuted ''A'' ''failed'']) d)"
proof -
  let ?g = "[(''A'', (new_node (example_suite ''A'' []))\<lparr>dependents := [''B'']\<rparr>),
             (''B'', (new_node (example_suite ''B'' [''A'']))\<lparr>dependencies := [''A'']\<rparr>)]"
  let ?plan = "example_plan [example_suite ''A'' [], example_suite ''B'' [''A'']]"
  have b: "DAGBuilder 1000 (\<lambda>xs. xs) ?plan = Inr ?g" by code_simp
  have r0: "is_ready (\<lambda>xs. xs) ?g ''B'' = Inr False" by code_simp
  have n: "map_of (after_calls (\<lambda>xs. xs) ?g [MarkExecuted ''A'' ''failed'']) ''B''
             = Some ((new_node (example_suite ''B'' [''A'']))\<lparr>dependencies := [''A'']\<rparr>)"
    by (simp add: after_calls_def mark_executed_def)
  from is_ready_iff_dependencies_executed [OF iteration_order_id b refl n]
  have "is_ready (\<lambda>xs. xs) (after_calls (\<lambda>xs. xs) ?g [MarkExecuted ''A'' ''failed'']) ''B''
     = Inr (\<forall>d \<in> set [''A'']. is_executed (after_calls (\<lambda>xs. xs) ?g [MarkExecuted ''A'' ''failed'']) d)"
    by simp
  with iteration_order_id b r0 show ?thesis by blast
qed

text \<open>
  \<^bold>\<open>C1.\<close> The claim holds of the status fields only (lemmas
  \<open>statuses_get_execution_order\<close>, \<open>statuses_get_stats\<close>); a successful call leaves
  every execution flag set (lemma \<open>get_execution_order_flags\<close>). \<^verbatim>\<open>get_execution_order\<close> sets
  \<^verbatim>\<open>node.executed = True\<close> on every node it schedules (line 106) and never resets
  it, although \<^verbatim>\<open>mark_executed\<close>, \<^verbatim>\<open>get_ready_suites\<close> and \<^verbatim>\<open>get_stats\<close> read the
  same flag as ``this suite has run''. On the graph of \<open>A\<close> and \<open>B\<close> (which depends
  on \<open>A\<close>), freshly built: before the call no flag is set and \<^verbatim>\<open>get_ready_suites\<close>
  returns \<open>[A]\<close>; after one call of \<^verbatim>\<open>get_execution_order\<close> both flags are set and
  \<^verbatim>\<open>get_ready_suites\<close> returns \<open>[]\<close>; \<^verbatim>\<open>get_stats\<close>, called twice in a row with nothing
  in between, reports 0 executed suites and then 2.
\<close>

theorem get_execution_order_sets_flags:
  "DAGBuilder 1000 (\<lambda>xs. xs) (example_plan [example_suite ''A'' [], example_suite ''B'' [''A'']])
     = Inr [(''A'', (new_node (example_suite ''A'' []))\<lparr>dependents := [''B'']\<rparr>),
            (''B'', (new_node (example_suite ''B'' [''A'']))\<lparr>dependencies := [''A'']\<rparr>)] \<and>
   map (\<lambda>kv. executed (snd kv))
     [(''A'', (new_node (example_suite ''A'' []))\<lparr>dependents := [''B'']\<rparr>),
      (''B'', (new_node (example_suite ''B'' [''A'']))\<lparr>dependencies := [''A'']\<rparr>)] = [False, False] \<and>
   get_ready_suites (\<lambda>xs. xs)
     [(''A'', (new_node (example_suite ''A'' []))\<lparr>dependents := [''B'']\<rparr>),
      (''B'', (new_node (example_suite ''B'' [''A'']))\<lparr>dependencies := [''A'']\<rparr>)] = Inr [''A''] \<and>
   snd (get_execution_order (\<lambda>xs. xs)
     [(''A'', (new_node (example_suite ''A'' []))\<lparr>dependents := [''B'']\<rparr>),
      (''B'', (new_node (example_suite ''B'' [''A'']))\<lparr>dependencies := [''A'']\<rparr>)])
     = Inr [[''A''], [''B'']] \<and>
   map (\<lambda>kv. executed (snd kv)) (fst (get_execution_order (\<lambda>xs. xs)
     [(''A'', (new_node (example_suite ''A'' []))\<lparr>dependents := [''B'']\<rparr>),
      (''B'', (new_node (example_suite ''B'' [''A'']))\<lparr>dependencies := [''A'']\<rparr>)])) = [True, True] \<and>
   get_ready_suites (\<lambda>xs. xs) (fst (get_execution_order (\<lambda>xs. xs)
     [(''A'', (new_node (example_suite ''A'' []))\<lparr>dependents := [''B'']\<rparr>),
      (''B'', (new_node (example_suite ''B'' [''A'']))\<lparr>dependencies := [''A'']\<rparr>)])) = Inr [] \<and>
   snd (get_stats (\<lambda>xs. xs)
     [(''A'', (new_node (example_suite ''A'' []))\<lparr>dependents := [''B'']\<rparr>),
      (''B'', (new_node (example_suite ''B'' [''A'']))\<lparr>dependencies := [''A'']\<rparr>)])
     = Inr [(''total_suites'', 2), (''executed'', 0), (''pending'', 2), (''parallel_groups'', 2)] \<and>
   snd (get_stats (\<lambda>xs. xs) (fst (get_stats (\<lambda>xs. xs)
     [(''A'', (new_node (example_suite ''A'' []))\<lparr>dependents := [''B'']\<rparr>),
      (''B'', (new_node (example_suite ''B'' [''A'']))\<lparr>dependencies := [''A'']\<rparr>)])))
     = Inr [(''total_suites'', 2), (''executed'', 2), (''pending'', 0), (''parallel_groups'', 2)]"
  by code_simp



text \<open>
  \<^bold>\<open>C4.\<close> As stated the claim covers suite sets that contain a cycle and also a
  reference to an undeclared suite. For those \<^verbatim>\<open>_build\<close> raises the unknown-suite
  error in its second pass, before \<^verbatim>\<open>_detect_cycles\<close> runs: suite \<open>X\<close> depending on
  itself and on the undeclared \<open>Y\<close> is rejected for \<open>Y\<close>. It also covers cycles longer
  than the recursion depth the traversal has left: with room for two activations of
  \<^verbatim>\<open>dfs\<close>, the cycle \<open>A\<close>, \<open>B\<close>, \<open>C\<close> ends construction in \<^verbatim>\<open>RecursionError\<close> before the
  closing edge is seen, and with room for three it is reported.
\<close>

theorem cycle_with_unknown_reference_counterexample:
  "depends_on (example_plan [example_suite ''X'' [''X'', ''Y'']]) ''X'' ''X'' \<and>
   DAGBuilder 1000 (\<lambda>xs. xs) (example_plan [example_suite ''X'' [''X'', ''Y'']])
     = Inl (UnknownDependency ''X'' ''Y'') \<and>
   valid_references (example_plan [example_suite ''A'' [''B''], example_suite ''B'' [''C''],
                                   example_suite ''C'' [''A'']]) \<and>
   closed_loop (depends_on (example_plan [example_suite ''A'' [''B''], example_suite ''B'' [''C''],
                                          example_suite ''C'' [''A'']])) [''A'', ''B'', ''C'', ''A''] \<and>
   DAGBuilder 2 (\<lambda>xs. xs) (example_plan [example_suite ''A'' [''B''], example_suite ''B'' [''C''],
                                           example_suite ''C'' [''A'']])
     = Inl RecursionError \<and>
   DAGBuilder 3 (\<lambda>xs. xs) (example_plan [example_suite ''A'' [''B''], example_suite ''B'' [''C''],
                                           example_suite ''C'' [''A'']])
     = Inl (CircularDependency [''A'', ''B'', ''C'', ''A''])"
  by code_simp

text \<open>
  \<^bold>\<open>C4, as the code has it.\<close> For every plan whose dependency references are all
  valid and whose dependency relation contains a cycle (a self-dependency included),
  construction fails, for every iteration order of the sets. It fails with the
  circular-dependency error, and the reported path is then a closed loop: it has at
  least two entries, its first and last entries are the same suite, and each
  consecutive pair is a declared dependency. The one other outcome is
  \<^verbatim>\<open>RecursionError\<close>, and it needs more suite names than the traversal has room for
  nested activations; so with room for as many activations as there are suite names
  the cycle is always reported.
\<close>

theorem cycle_is_reported:
  "iteration_order it \<Longrightarrow> valid_references plan \<Longrightarrow> (a, a) \<in> (dependency_relation plan)\<^sup>+ \<Longrightarrow>
     (\<exists>cyc. DAGBuilder lim it plan = Inl (CircularDependency cyc) \<and>
            closed_loop (depends_on plan) cyc) \<or>
     (DAGBuilder lim it plan = Inl RecursionError \<and> lim < card (name ` set (suites plan)))"
proof -
  assume it: "iteration_order it" and valid: "valid_references plan"
    and cyc: "(a, a) \<in> (dependency_relation plan)\<^sup>+"
  from DAGBuilder_cases[OF it, of lim plan]
  consider (ok) "\<forall>k. (k, k) \<notin> (dependency_relation plan)\<^sup>+"
    | (cyc) c where "DAGBuilder lim it plan = Inl (CircularDependency c)" "closed_loop (depends_on plan) c"
    | (unk) s d where "s \<in> set (suites plan)" "d \<in> set (TestSuite.dependencies s)"
        "d \<notin> name ` set (suites plan)"
    | (deep) "DAGBuilder lim it plan = Inl RecursionError" "lim < card (name ` set (suites plan))"
    by blast
  then show ?thesis
  proof cases
    case ok
    with cyc show ?thesis by blast
  next
    case cyc
    then show ?thesis by blast
  next
    case unk
    with valid show ?thesis by (auto simp: valid_references_def)
  next
    case deep
    then show ?thesis by blast
  qed
qed

theorem cycle_is_reported_witness:
  "iteration_order (\<lambda>xs. xs) \<and>
   valid_references (example_plan [example_suite ''A'' [''B''], example_suite ''B'' [''A'']]) \<and>
   (''A'', ''A'') \<in> (dependency_relation
                       (example_plan [example_suite ''A'' [''B''], example_suite ''B'' [''A'']]))\<^sup>+ \<and>
   DAGBuilder 1000 (\<lambda>xs. xs) (example_plan [example_suite ''A'' [''B''], example_suite ''B'' [''A'']])
     = Inl (CircularDependency [''A'', ''B'', ''A'']) \<and>
   closed_loop (depends_on (example_plan [example_suite ''A'' [''B''], example_suite ''B'' [''A'']]))
     [''A'', ''B'', ''A'']"
proof -
  let ?plan = "example_plan [example_suite ''A'' [''B''], example_suite ''B'' [''A'']]"
  have h2: "valid_references ?plan" by code_simp
  have ab: "depends_on ?plan ''A'' ''B''" and ba: "depends_on ?plan ''B'' ''A''" by code_simp+
  have h3: "(''A'', ''A'') \<in> (dependency_relation ?plan)\<^sup>+"
  proof -
    from ab have "(''A'', ''B'') \<in> dependency_relation ?plan" by (simp add: dependency_relation_def)
    moreover from ba have "(''B'', ''A'') \<in> dependency_relation ?plan"
      by (simp add: dependency_relation_def)
    ultimately show ?thesis by (rule trancl_into_trancl[OF r_into_trancl])
  qed
  have b: "DAGBuilder 1000 (\<lambda>xs. xs) ?plan = Inl (CircularDependency [''A'', ''B'', ''A''])" by code_simp
  from cycle_is_reported[OF iteration_order_id h2 h3, where lim = 1000] b
  have "closed_loop (depends_on ?plan) [''A'', ''B'', ''A'']" by simp
  with iteration_order_id h2 h3 b show ?thesis by blast
qed

text \<open>
  \<^bold>\<open>C5.\<close> The claim asks for a \<^verbatim>\<open>DuplicateSuite\<close> error when two descriptors share a
  name. \<^verbatim>\<open>_build\<close> has no such check: the first loop assigns
  \<^verbatim>\<open>self.nodes[suite.name]\<close> for every descriptor, so a later one replaces the node of
  an earlier one. The plan \<open>A\<close> (depending on \<open>B\<close>), \<open>B\<close>, \<open>A\<close> (no dependencies) is
  accepted; the node \<open>A\<close> holds the second descriptor and the dependency of the
  first.
\<close>

theorem duplicate_suite_accepted_counterexample:
  "\<not> distinct (map name (suites (example_plan
        [example_suite ''A'' [''B''], example_suite ''B'' [], example_suite ''A'' []]))) \<and>
   DAGBuilder 1000 (\<lambda>xs. xs) (example_plan
        [example_suite ''A'' [''B''], example_suite ''B'' [], example_suite ''A'' []])
     = Inr [(''A'', (new_node (example_suite ''A'' []))\<lparr>dependencies := [''B'']\<rparr>),
            (''B'', (new_node (example_suite ''B'' []))\<lparr>dependents := [''A'']\<rparr>)]"
  by code_simp

text \<open>
  \<^bold>\<open>C5, as the code has it.\<close> For every input suite list, and so for one in which
  two descriptors share a name, construction fails only for a dependency that names
  no suite, for a cycle of the declared dependencies, or with \<^verbatim>\<open>RecursionError\<close> when
  there are more suite names than the traversal has room for nested activations;
  never for a duplicate. When it succeeds, the graph has one node for each distinct name; the node holds the last
  descriptor of that name, and its dependency set collects the dependencies declared
  by all descriptors of that name.
\<close>

theorem duplicate_names_overwrite:
  "iteration_order it \<Longrightarrow>
     (\<forall>e. DAGBuilder lim it plan = Inl e \<longrightarrow>
        (\<exists>s d. e = UnknownDependency s d \<and> d \<notin> name ` set (suites plan)) \<or>
        (\<exists>cyc. e = CircularDependency cyc \<and> closed_loop (depends_on plan) cyc) \<or>
        (e = RecursionError \<and> lim < card (name ` set (suites plan)))) \<and>
     (\<forall>nds. DAGBuilder lim it plan = Inr nds \<longrightarrow>
        distinct (map fst nds) \<and> fst ` set nds = name ` set (suites plan) \<and>
        (\<forall>k. map_option suite (map_of nds k) = find (\<lambda>s. name s = k) (rev (suites plan))) \<and>
        (\<forall>k. set (deps_of nds k) = {d. depends_on plan k d}))"
proof -
  assume it: "iteration_order it"
  have err: "(\<exists>s d. e = UnknownDependency s d \<and> d \<notin> name ` set (suites plan)) \<or>
        (\<exists>cyc. e = CircularDependency cyc \<and> closed_loop (depends_on plan) cyc) \<or>
        (e = RecursionError \<and> lim < card (name ` set (suites plan)))"
    if "DAGBuilder lim it plan = Inl e" for e
    using DAGBuilder_cases[OF it, of lim plan] that by auto
  have ok: "distinct (map fst nds) \<and> fst ` set nds = name ` set (suites plan) \<and>
        (\<forall>k. map_option suite (map_of nds k) = find (\<lambda>s. name s = k) (rev (suites plan))) \<and>
        (\<forall>k. set (deps_of nds k) = {d. depends_on plan k d})"
    if "DAGBuilder lim it plan = Inr nds" for nds
  proof -
    from that have b: "build_relationships (create_nodes [] (suites plan)) (suites plan) = Inr nds"
      by (simp add: DAGBuilder_Inr)
    have "set (deps_of nds k) = {d. depends_on plan k d}" for k
      unfolding built_deps(1)[OF b] depends_on_def ..
    with built_keys[OF b] built_suite[OF b] show ?thesis by blast
  qed
  from err ok show ?thesis by blast
qed

theorem duplicate_names_overwrite_witness:
  "iteration_order (\<lambda>xs. xs) \<and>
   DAGBuilder 1000 (\<lambda>xs. xs) (example_plan
        [example_suite ''A'' [''B''], example_suite ''B'' [], example_suite ''A'' []])
     = Inr [(''A'', (new_node (example_suite ''A'' []))\<lparr>dependencies := [''B'']\<rparr>),
            (''B'', (new_node (example_suite ''B'' []))\<lparr>dependents := [''A'']\<rparr>)] \<and>
   map_option suite (map_of
       [(''A'', (new_node (example_suite ''A'' []))\<lparr>dependencies := [''B'']\<rparr>),
        (''B'', (new_node (example_suite ''B'' []))\<lparr>dependents := [''A'']\<rparr>)] ''A'')
     = find (\<lambda>s. name s = ''A'')
         (rev (suites (example_plan
            [example_suite ''A'' [''B''], example_suite ''B'' [], example_suite ''A'' []]))) \<and>
   find (\<lambda>s. name s = ''A'')
         (rev (suites (example_plan
            [example_suite ''A'' [''B''], example_suite ''B'' [], example_suite ''A'' []])))
     = Some (example_suite ''A'' [])"
proof -
  let ?plan = "example_plan [example_suite ''A'' [''B''], example_suite ''B'' [], example_suite ''A'' []]"
  let ?g = "[(''A'', (new_node (example_suite ''A'' []))\<lparr>dependencies := [''B'']\<rparr>),
             (''B'', (new_node (example_suite ''B'' []))\<lparr>dependents := [''A'']\<rparr>)]"
  have b: "DAGBuilder 1000 (\<lambda>xs. xs) ?plan = Inr ?g" by code_simp
  have f: "find (\<lambda>s. name s = ''A'') (rev (suites ?plan)) = Some (example_suite ''A'' [])"
    by code_simp
  from duplicate_names_overwrite[OF iteration_order_id, where lim = 1000 and plan = ?plan] b
  have "map_option suite (map_of ?g ''A'') = find (\<lambda>s. name s = ''A'') (rev (suites ?plan))"
    by blast
  with iteration_order_id b f show ?thesis by blast
qed

text \<open>
  \<^bold>\<open>C6.\<close> The claim asks that a ceiling \<open>max_parallel \<le> 0\<close> be refused and that no
  result drop a suite. \<^verbatim>\<open>get_parallel_groups\<close> (``Splits large groups into smaller
  ones if they exceed max_parallel'') never tests its argument. On the graph of \<open>A\<close>,
  \<open>B\<close> and \<open>C\<close> (both depending on \<open>A\<close>) the plan is \<open>[[A], [B, C]]\<close> and the ceiling 1
  splits it into \<open>[[A], [B], [C]]\<close>; the ceiling 0 fails, through the \<^verbatim>\<open>ValueError\<close>
  of \<^verbatim>\<open>range\<close> for a zero step; with the ceiling \<open>-1\<close> the call
  \<^verbatim>\<open>range(0, len(group), -1)\<close> is empty for every group, no error is raised, and the
  method returns the empty list: every suite of the plan is dropped.
\<close>

theorem negative_ceiling_returns_empty:
  "DAGBuilder 1000 (\<lambda>xs. xs)
     (example_plan [example_suite ''A'' [], example_suite ''B'' [''A''], example_suite ''C'' [''A'']])
     = Inr [(''A'', (new_node (example_suite ''A'' []))\<lparr>dependents := [''B'', ''C'']\<rparr>),
            (''B'', (new_node (example_suite ''B'' [''A'']))\<lparr>dependencies := [''A'']\<rparr>),
            (''C'', (new_node (example_suite ''C'' [''A'']))\<lparr>dependencies := [''A'']\<rparr>)] \<and>
   snd (get_execution_order (\<lambda>xs. xs)
     [(''A'', (new_node (example_suite ''A'' []))\<lparr>dependents := [''B'', ''C'']\<rparr>),
      (''B'', (new_node (example_suite ''B'' [''A'']))\<lparr>dependencies := [''A'']\<rparr>),
      (''C'', (new_node (example_suite ''C'' [''A'']))\<lparr>dependencies := [''A'']\<rparr>)])
     = Inr [[''A''], [''B'', ''C'']] \<and>
   snd (get_parallel_groups (\<lambda>xs. xs)
     [(''A'', (new_node (example_suite ''A'' []))\<lparr>dependents := [''B'', ''C'']\<rparr>),
      (''B'', (new_node (example_suite ''B'' [''A'']))\<lparr>dependencies := [''A'']\<rparr>),
      (''C'', (new_node (example_suite ''C'' [''A'']))\<lparr>dependencies := [''A'']\<rparr>)] 1)
     = Inr [[''A''], [''B''], [''C'']] \<and>
   snd (get_parallel_groups (\<lambda>xs. xs)
     [(''A'', (new_node (example_suite ''A'' []))\<lparr>dependents := [''B'', ''C'']\<rparr>),
      (''B'', (new_node (example_suite ''B'' [''A'']))\<lparr>dependencies := [''A'']\<rparr>),
      (''C'', (new_node (example_suite ''C'' [''A'']))\<lparr>dependencies := [''A'']\<rparr>)] 0)
     = Inl RangeStepZero \<and>
   snd (get_parallel_groups (\<lambda>xs. xs)
     [(''A'', (new_node (example_suite ''A'' []))\<lparr>dependents := [''B'', ''C'']\<rparr>),
      (''B'', (new_node (example_suite ''B'' [''A'']))\<lparr>dependencies := [''A'']\<rparr>),
      (''C'', (new_node (example_suite ''C'' [''A'']))\<lparr>dependencies := [''A'']\<rparr>)] (- 1))
     = Inr []"
  by code_simp

end
